theory Spec2Isabelle
  imports Complex_Main "HOL-Library.AList"
begin

section \<open>JavaScript values\<close>

text \<open>
  The loader of \<^verbatim>\<open>xviz-loader-interface.js\<close> keeps its attributes in a property bag and
  compares them with \<^verbatim>\<open>!==\<close>, tests them for truthiness and with
  \<^verbatim>\<open>Number.isFinite\<close>. The values are modelled as the JavaScript primitives,
  references to heap objects, and the members that every object inherits from
  \<^verbatim>\<open>Object.prototype\<close> (\<open>Builtin\<close>, each identified by its name). Finite numbers are
  idealised as reals: rounding of IEEE doubles and the negative zero are not modelled.
\<close>

datatype jsnum = Fin real | NaN | PosInf | NegInf

datatype jsval = Undefined | Null | Bool bool | Num jsnum | Str string | Ref nat | Builtin string

type_synonym props = "(string \<times> jsval) list"

fun truthy :: "jsval \<Rightarrow> bool" where
  "truthy Undefined = False"
| "truthy Null = False"
| "truthy (Bool b) = b"
| "truthy (Num (Fin x)) = (x \<noteq> 0)"
| "truthy (Num NaN) = False"
| "truthy (Num PosInf) = True"
| "truthy (Num NegInf) = True"
| "truthy (Str s) = (s \<noteq> [])"
| "truthy (Ref a) = True"
| "truthy (Builtin name) = True"

definition strict_eq :: "jsval \<Rightarrow> jsval \<Rightarrow> bool" where
  \<comment> \<open>\<^verbatim>\<open>a === b\<close>: primitives by value, objects by reference, \<^verbatim>\<open>NaN\<close> equal to nothing.\<close>
  "strict_eq a b = (a = b \<and> a \<noteq> Num NaN)"

definition strict_neq :: "jsval \<Rightarrow> jsval \<Rightarrow> bool" where
  \<comment> \<open>\<^verbatim>\<open>a !== b\<close>\<close>
  "strict_neq a b = (\<not> strict_eq a b)"

fun isFinite :: "jsval \<Rightarrow> bool" where
  \<comment> \<open>\<^verbatim>\<open>Number.isFinite\<close>: no coercion, false for every value that is not a number.\<close>
  "isFinite (Num (Fin x)) = True"
| "isFinite v = False"

fun js_add :: "jsnum \<Rightarrow> jsnum \<Rightarrow> jsnum" where
  \<comment> \<open>\<^verbatim>\<open>a + b\<close> on two numbers\<close>
  "js_add (Fin a) (Fin b) = Fin (a + b)"
| "js_add NaN b = NaN"
| "js_add a NaN = NaN"
| "js_add PosInf NegInf = NaN"
| "js_add NegInf PosInf = NaN"
| "js_add PosInf b = PosInf"
| "js_add NegInf b = NegInf"
| "js_add a PosInf = PosInf"
| "js_add a NegInf = NegInf"

fun js_min :: "jsnum \<Rightarrow> jsnum \<Rightarrow> jsnum" where
  \<comment> \<open>\<^verbatim>\<open>Math.min(a, b)\<close>\<close>
  "js_min NaN b = NaN"
| "js_min a NaN = NaN"
| "js_min NegInf b = NegInf"
| "js_min a NegInf = NegInf"
| "js_min PosInf b = b"
| "js_min a PosInf = a"
| "js_min (Fin a) (Fin b) = Fin (min a b)"

fun js_max :: "jsnum \<Rightarrow> jsnum \<Rightarrow> jsnum" where
  \<comment> \<open>\<^verbatim>\<open>Math.max(a, b)\<close>\<close>
  "js_max NaN b = NaN"
| "js_max a NaN = NaN"
| "js_max PosInf b = PosInf"
| "js_max a PosInf = PosInf"
| "js_max NegInf b = b"
| "js_max a NegInf = a"
| "js_max (Fin a) (Fin b) = Fin (max a b)"

definition clamp :: "jsnum \<Rightarrow> jsnum \<Rightarrow> jsnum \<Rightarrow> jsnum" where
  \<comment> \<open>\<^verbatim>\<open>clamp(value, min, max)\<close> of math.gl on a number:
      \<^verbatim>\<open>Math.max(min, Math.min(max, value))\<close>\<close>
  "clamp val lo hi = js_max lo (js_min hi val)"

section \<open>Property access\<close>

text \<open>
  The attribute bag \<^verbatim>\<open>this.state\<close>, the callback registry \<^verbatim>\<open>this.callbacks\<close> and
  the mappings of streams and stream settings are ordinary objects, read with
  \<^verbatim>\<open>obj[name]\<close>: a name that is not a property of the object itself is looked up in
  its prototype, which is \<^verbatim>\<open>Object.prototype\<close> for the objects that an object literal
  or a spread creates. The property list of an object holds its own properties in the
  order in which \<^verbatim>\<open>for\<close>-\<^verbatim>\<open>in\<close> enumerates them.
\<close>

definition object_prototype :: "string list" where
  \<comment> \<open>the names of the members of \<^verbatim>\<open>Object.prototype\<close>; none of them is enumerable\<close>
  "object_prototype =
     [''constructor'', ''__defineGetter__'', ''__defineSetter__'', ''hasOwnProperty'',
      ''__lookupGetter__'', ''__lookupSetter__'', ''isPrototypeOf'', ''propertyIsEnumerable'',
      ''toString'', ''valueOf'', ''__proto__'', ''toLocaleString'']"

definition inherited :: "string \<Rightarrow> bool" where
  "inherited name = (name \<in> set object_prototype)"

definition js_member :: "props \<Rightarrow> string \<Rightarrow> jsval" where
  \<comment> \<open>\<^verbatim>\<open>obj[name]\<close> for an object with the own properties \<open>ps\<close>: the own property,
      else the inherited member, else \<^verbatim>\<open>undefined\<close>\<close>
  "js_member ps name =
     (case map_of ps name of
        Some v \<Rightarrow> v
      | None \<Rightarrow> if inherited name then Builtin name else Undefined)"

definition js_assign :: "string \<Rightarrow> jsval \<Rightarrow> props \<Rightarrow> props" where
  \<comment> \<open>\<^verbatim>\<open>obj[name] = val\<close>: the property is set or added at the end. Assigning to the
      name \<^verbatim>\<open>__proto__\<close>, unless the object has a property of its own with that name,
      reaches the inherited setter and adds no property. When \<open>val\<close> is an object or
      \<^verbatim>\<open>null\<close> this setter replaces the prototype of the object; objects with another
      prototype than \<^verbatim>\<open>Object.prototype\<close> are not modelled, and the statements about
      writes under names taken from data leave the name \<^verbatim>\<open>__proto__\<close> out.\<close>
  "js_assign name val ps =
     (if name = ''__proto__'' \<and> map_of ps name = None then ps else AList.update name val ps)"

section \<open>Heap objects\<close>

text \<open>
  Objects live in a heap and are compared by address. Three shapes of object reach the
  loader: plain mappings from names to values (\<^verbatim>\<open>streams\<close>, \<^verbatim>\<open>streamSettings\<close>), the
  log metadata with the fields the loader reads (a field that is absent is \<open>None\<close>), and
  the log synchronizer, an external collaborator that retains the time and the look-ahead
  offset last pushed into it.
\<close>

record metadata =
  start_time :: "jsnum option"
  end_time :: "jsnum option"
  meta_streams :: jsval

record synchronizer =
  sync_time :: jsval
  sync_lookAhead :: jsval

datatype obj = Plain props | Meta metadata | Sync synchronizer

section \<open>The loader and its host\<close>

datatype error = Error string | TypeError string | Thrown nat

datatype call =
    CallListener nat nat
  | CallCallback nat string jsval
  | SetTime nat jsval
  | SetLookAheadTimeOffset nat jsval
  | GetCurrentFrame nat jsval
  | Fire nat

type_synonym cache = "(jsval list \<times> jsval) option"

text \<open>
  The fields up to \<open>sel_frame\<close> are the loader instance: \<^verbatim>\<open>this.state\<close>,
  \<^verbatim>\<open>this._version\<close>, \<^verbatim>\<open>this._updateTimer\<close> (\<open>None\<close> is \<^verbatim>\<open>null\<close>, \<open>Some h\<close> a
  handle returned by \<^verbatim>\<open>requestAnimationFrame\<close>), \<^verbatim>\<open>this.listeners\<close>,
  \<^verbatim>\<open>this.callbacks\<close> and the caches of the four memoized selectors. Functions
  (listeners, callbacks) are identified by a number. The remaining fields are the
  surroundings: the object heap with its allocation pointer, the host's animation-frame
  queue with the last handle handed out, the counters of \<^verbatim>\<open>stats\<close>, and a trace of the
  calls made into listeners, callbacks and the synchronizer.
\<close>

record world =
  state :: props
  version :: nat
  updateTimer :: "nat option"
  listeners :: "nat list"
  callbacks :: "(string \<times> nat list) list"
  sel_streams :: cache
  sel_start :: cache
  sel_end :: cache
  sel_frame :: cache
  heap :: "nat \<Rightarrow> obj option"
  next_ref :: nat
  raf_last :: nat
  raf_queue :: "nat list"
  stats :: "(string \<times> nat) list"
  trace :: "call list"

definition constructor :: world where
  \<comment> \<open>the loader as its constructor leaves it, in an empty host\<close>
  "constructor =
     \<lparr>state = [], version = 0, updateTimer = None, listeners = [], callbacks = [],
      sel_streams = None, sel_start = None, sel_end = None, sel_frame = None,
      heap = (\<lambda>a. None), next_ref = 0, raf_last = 0, raf_queue = [], stats = [], trace = []\<rparr>"

definition requestAnimationFrame :: "world \<Rightarrow> nat \<times> world" where
  \<comment> \<open>The host primitive, always called with \<^verbatim>\<open>this._update\<close>: the handle is the
      host's callback identifier incremented by one, hence positive, and the callback
      joins the queue of the next frame.\<close>
  "requestAnimationFrame w =
     (let h = raf_last w + 1 in (h, w\<lparr>raf_last := h, raf_queue := raf_queue w @ [h]\<rparr>))"

definition handle_truthy :: "nat option \<Rightarrow> bool" where
  \<comment> \<open>truthiness of \<^verbatim>\<open>this._updateTimer\<close>: \<^verbatim>\<open>null\<close> and the number 0 are falsy\<close>
  "handle_truthy t = (case t of None \<Rightarrow> False | Some h \<Rightarrow> h \<noteq> 0)"

definition get :: "string \<Rightarrow> world \<Rightarrow> jsval" where
  \<comment> \<open>\<^verbatim>\<open>this.state[key]\<close>\<close>
  "get key w = js_member (state w) key"

definition set_attr :: "string \<Rightarrow> jsval \<Rightarrow> world \<Rightarrow> world" where
  \<comment> \<open>\<^verbatim>\<open>set(key, value)\<close>\<close>
  "set_attr key val w =
     (if strict_neq (get key w) val then
        (let w1 = w\<lparr>state := js_assign key val (state w), version := version w + 1\<rparr> in
         if \<not> handle_truthy (updateTimer w1) then
           (let (h, w2) = requestAnimationFrame w1 in w2\<lparr>updateTimer := Some h\<rparr>)
         else w1)
      else w)"

fun set_all :: "(string \<times> jsval) list \<Rightarrow> world \<Rightarrow> world" where
  \<comment> \<open>a sequence of \<^verbatim>\<open>set\<close> calls in one synchronous turn\<close>
  "set_all [] w = w"
| "set_all ((key, val) # rest) w = set_all rest (set_attr key val w)"

fun all_unchanged :: "(string \<times> jsval) list \<Rightarrow> world \<Rightarrow> bool" where
  \<comment> \<open>every call of the sequence writes a value \<^verbatim>\<open>===\<close> to the one stored when it runs\<close>
  "all_unchanged [] w = True"
| "all_unchanged ((key, val) # rest) w =
     (strict_eq (get key w) val \<and> all_unchanged rest (set_attr key val w))"

section \<open>Registration\<close>

definition subscribe :: "nat \<Rightarrow> world \<Rightarrow> world" where
  "subscribe inst w = w\<lparr>listeners := listeners w @ [inst]\<rparr>"

definition unsubscribe :: "nat \<Rightarrow> world \<Rightarrow> world" where
  \<comment> \<open>\<^verbatim>\<open>findIndex\<close> and \<^verbatim>\<open>splice(index, 1)\<close>: the first occurrence is removed\<close>
  "unsubscribe inst w = w\<lparr>listeners := remove1 inst (listeners w)\<rparr>"

text \<open>
  \<^verbatim>\<open>this.callbacks[eventType]\<close> is a property read as well: for an event type that has
  no callback array of its own and is named like a member of \<^verbatim>\<open>Object.prototype\<close> it
  yields that member, which is truthy and is not an array, so that \<^verbatim>\<open>push\<close>,
  \<^verbatim>\<open>indexOf\<close> and the iteration fail with a \<^verbatim>\<open>TypeError\<close>. The assignment that
  \<^verbatim>\<open>on\<close> makes before it calls \<^verbatim>\<open>push\<close> then stores the inherited member under its
  own name, which changes no later read.
\<close>

definition on :: "string \<Rightarrow> nat \<Rightarrow> world \<Rightarrow> error option \<times> world" where
  "on eventType cb w =
     (case map_of (callbacks w) eventType of
        Some cbs \<Rightarrow> (None, w\<lparr>callbacks := AList.update eventType (cbs @ [cb]) (callbacks w)\<rparr>)
      | None \<Rightarrow>
          if inherited eventType
          then (Some (TypeError ''this.callbacks[eventType].push is not a function''), w)
          else (None, w\<lparr>callbacks := AList.update eventType [cb] (callbacks w)\<rparr>))"

definition off :: "string \<Rightarrow> nat \<Rightarrow> world \<Rightarrow> error option \<times> world" where
  \<comment> \<open>\<^verbatim>\<open>indexOf\<close> and \<^verbatim>\<open>splice(index, 1)\<close> on the array itself\<close>
  "off eventType cb w =
     (case map_of (callbacks w) eventType of
        Some cbs \<Rightarrow> (None, w\<lparr>callbacks := AList.update eventType (remove1 cb cbs) (callbacks w)\<rparr>)
      | None \<Rightarrow>
          if inherited eventType
          then (Some (TypeError ''callbacks.indexOf is not a function''), w)
          else (None, w))"

section \<open>Listeners, the flush and the animation frame\<close>

text \<open>
  Listeners and event callbacks are opaque functions of the loader's clients. What one of
  them does when it is called is given by its reaction: the loader operations it performs,
  in order, and whether it then throws. The operations considered are \<^verbatim>\<open>set\<close>,
  \<^verbatim>\<open>subscribe\<close>, \<^verbatim>\<open>unsubscribe\<close>, \<^verbatim>\<open>on\<close> and \<^verbatim>\<open>off\<close>; one that throws ends the
  function at once. The environment maps a function and the arguments it receives to its
  reaction.
\<close>

datatype action =
    ASet string jsval
  | ASubscribe nat
  | AUnsubscribe nat
  | AOn string nat
  | AOff string nat

record reaction =
  acts :: "action list"
  throws :: bool

type_synonym listener_env = "nat \<Rightarrow> nat \<Rightarrow> reaction"

type_synonym callback_env = "nat \<Rightarrow> string \<Rightarrow> jsval \<Rightarrow> reaction"

fun perform :: "action \<Rightarrow> world \<Rightarrow> error option \<times> world" where
  "perform (ASet key val) w = (None, set_attr key val w)"
| "perform (ASubscribe inst) w = (None, subscribe inst w)"
| "perform (AUnsubscribe inst) w = (None, unsubscribe inst w)"
| "perform (AOn eventType cb) w = on eventType cb w"
| "perform (AOff eventType cb) w = off eventType cb w"

fun perform_all :: "action list \<Rightarrow> world \<Rightarrow> error option \<times> world" where
  \<comment> \<open>the operations in order, up to the first one that throws\<close>
  "perform_all [] w = (None, w)"
| "perform_all (a # as) w =
     (case perform a w of
        (Some e, w') \<Rightarrow> (Some e, w')
      | (None, w') \<Rightarrow> perform_all as w')"

definition react :: "nat \<Rightarrow> reaction \<Rightarrow> world \<Rightarrow> error option \<times> world" where
  \<comment> \<open>the body of the client function \<open>f\<close>: \<open>Some e\<close> when it throws\<close>
  "react f r w =
     (case perform_all (acts r) w of
        (Some e, w') \<Rightarrow> (Some e, w')
      | (None, w') \<Rightarrow> (if throws r then Some (Thrown f) else None, w'))"

definition call_listener :: "listener_env \<Rightarrow> nat \<Rightarrow> world \<Rightarrow> error option \<times> world" where
  \<comment> \<open>\<^verbatim>\<open>o(this._version)\<close>: the generation is read when the listener is called\<close>
  "call_listener lenv f w =
     react f (lenv f (version w)) (w\<lparr>trace := trace w @ [CallListener f (version w)]\<rparr>)"

function forEach_listeners ::
  "listener_env \<Rightarrow> nat \<Rightarrow> nat \<Rightarrow> world \<Rightarrow> error option \<times> world" where
  \<comment> \<open>\<^verbatim>\<open>this.listeners.forEach(o => o(this._version))\<close> from index \<open>k\<close>: the length
      is read once before the first call, an index that no longer exists is skipped, and
      an exception ends the iteration.\<close>
  "forEach_listeners lenv k len w =
     (if k < len then
        (if k < length (listeners w) then
           (case call_listener lenv (listeners w ! k) w of
              (Some e, w') \<Rightarrow> (Some e, w')
            | (None, w') \<Rightarrow> forEach_listeners lenv (k + 1) len w')
         else forEach_listeners lenv (k + 1) len w)
      else (None, w))"
  by pat_completeness auto
termination
  by (relation "measure (\<lambda>(lenv, k, len, w). len - k)") auto

declare forEach_listeners.simps [simp del]

definition loader_update :: "listener_env \<Rightarrow> world \<Rightarrow> error option \<times> world" where
  \<comment> \<open>\<^verbatim>\<open>_update\<close>\<close>
  "loader_update lenv w =
     (let w1 = w\<lparr>updateTimer := None\<rparr> in
      forEach_listeners lenv 0 (length (listeners w1)) w1)"

fun run_callbacks :: "listener_env \<Rightarrow> nat list \<Rightarrow> world \<Rightarrow> world" where
  "run_callbacks lenv [] w = w"
| "run_callbacks lenv (h # hs) w =
     run_callbacks lenv hs (snd (loader_update lenv (w\<lparr>trace := trace w @ [Fire h]\<rparr>)))"

definition animation_frame :: "listener_env \<Rightarrow> world \<Rightarrow> world" where
  \<comment> \<open>The host runs the animation-frame callbacks: the queue is taken and emptied, then
      each callback queued so far is called (here always \<^verbatim>\<open>_update\<close>); a callback
      requested meanwhile waits for the next frame, and an exception of one callback is
      reported by the host without stopping the others.\<close>
  "animation_frame lenv w = run_callbacks lenv (raf_queue w) (w\<lparr>raf_queue := []\<rparr>)"

fun all_changed :: "(string \<times> jsval) list \<Rightarrow> world \<Rightarrow> bool" where
  \<comment> \<open>every call of the sequence writes a value \<^verbatim>\<open>!==\<close> to the one stored when it runs\<close>
  "all_changed [] w = True"
| "all_changed ((key, val) # rest) w =
     (strict_neq (get key w) val \<and> all_changed rest (set_attr key val w))"

fun only_sets :: "action list \<Rightarrow> bool" where
  \<comment> \<open>all the operations are \<^verbatim>\<open>set\<close> calls, none of them under the name
      \<^verbatim>\<open>__proto__\<close>\<close>
  "only_sets [] = True"
| "only_sets (ASet key val # rest) = (key \<noteq> ''__proto__'' \<and> only_sets rest)"
| "only_sets (a # rest) = False"

definition writes :: "world \<Rightarrow> world \<Rightarrow> bool" where
  \<comment> \<open>how a run of \<^verbatim>\<open>set\<close> calls leaves generation and tick: the listeners stay; either
      nothing was written, or the generation grew and a tick is pending, the one that
      was pending before or else a single new one\<close>
  "writes w w' =
     (listeners w' = listeners w \<and>
      (if version w' = version w
       then updateTimer w' = updateTimer w \<and> raf_queue w' = raf_queue w \<and> raf_last w' = raf_last w
       else version w < version w' \<and> handle_truthy (updateTimer w') \<and>
         (if handle_truthy (updateTimer w)
          then updateTimer w' = updateTimer w \<and> raf_queue w' = raf_queue w \<and> raf_last w' = raf_last w
          else updateTimer w' = Some (raf_last w + 1) \<and> raf_queue w' = raf_queue w @ [raf_last w + 1]
             \<and> raf_last w' = raf_last w + 1)))"

definition well_behaved :: "listener_env \<Rightarrow> nat list \<Rightarrow> bool" where
  \<comment> \<open>none of the listeners throws, and all that a listener does when called is to
      call \<^verbatim>\<open>set\<close>, with names other than \<^verbatim>\<open>__proto__\<close>\<close>
  "well_behaved lenv ls = (\<forall>f\<in>set ls. \<forall>g. \<not> throws (lenv f g) \<and> only_sets (acts (lenv f g)))"

definition step :: "listener_env \<Rightarrow> nat \<Rightarrow> world \<Rightarrow> world" where
  \<comment> \<open>the world after one listener has been called\<close>
  "step lenv f w = snd (call_listener lenv f w)"

fun changing_sets :: "action list \<Rightarrow> world \<Rightarrow> nat" where
  \<comment> \<open>how many of the operations are \<^verbatim>\<open>set\<close> calls whose value is \<^verbatim>\<open>!==\<close> to the one
      stored when they run\<close>
  "changing_sets [] w = 0"
| "changing_sets (a # as) w =
     (case a of ASet key val \<Rightarrow> if strict_neq (get key w) val then 1 else 0 | _ \<Rightarrow> 0)
     + changing_sets as (snd (perform a w))"

fun flush_worlds :: "listener_env \<Rightarrow> nat list \<Rightarrow> world \<Rightarrow> world list" where
  \<comment> \<open>What each listener of the list finds when it is its turn, starting from the world
      \<open>w\<close>: the first finds \<open>w\<close>, the next one what the listener before it made of
      the world with the operations it performs, given the generation it was called
      with.\<close>
  "flush_worlds lenv [] w = []"
| "flush_worlds lenv (f # fs) w =
     w # flush_worlds lenv fs (snd (perform_all (acts (lenv f (version w))) w))"

definition two_listeners :: world where
  \<comment> \<open>a new loader with the listeners 1 and 2 subscribed\<close>
  "two_listeners = constructor\<lparr>listeners := [1, 2]\<rparr>"

definition writing_listener :: listener_env where
  \<comment> \<open>listener 1 calls \<^verbatim>\<open>set('lookAhead', 2)\<close>, every other listener does nothing\<close>
  "writing_listener f g = \<lparr>acts = (if f = 1 then [ASet ''lookAhead'' (Num (Fin 2))] else []), throws = False\<rparr>"

definition silent_listener :: listener_env where
  \<comment> \<open>listeners that touch nothing\<close>
  "silent_listener f g = \<lparr>acts = [], throws = False\<rparr>"

definition leaving_listener :: listener_env where
  \<comment> \<open>listener 1 unsubscribes itself when called\<close>
  "leaving_listener f g = \<lparr>acts = (if f = 1 then [AUnsubscribe 1] else []), throws = False\<rparr>"

definition throwing_listener :: listener_env where
  \<comment> \<open>listener 1 throws when called\<close>
  "throwing_listener f g = \<lparr>acts = [], throws = (f = 1)\<rparr>"

fun listener_calls :: "call list \<Rightarrow> (nat \<times> nat) list" where
  \<comment> \<open>the listener invocations of a trace, each with the generation it received\<close>
  "listener_calls [] = []"
| "listener_calls (CallListener f g # rest) = (f, g) # listener_calls rest"
| "listener_calls (c # rest) = listener_calls rest"

fun fires :: "call list \<Rightarrow> nat list" where
  \<comment> \<open>the ticks of a trace that the host fired\<close>
  "fires [] = []"
| "fires (Fire h # rest) = h # fires rest"
| "fires (c # rest) = fires rest"

section \<open>The event bus\<close>

definition stats_bump :: "string \<Rightarrow> world \<Rightarrow> world" where
  \<comment> \<open>Modelled from the spec: \<^verbatim>\<open>stats.bump\<close> of \<^verbatim>\<open>utils/stats\<close>, which is not among
      the sources, increments the observability counter of the given name.\<close>
  "stats_bump name w =
     w\<lparr>stats := AList.update name
        ((case map_of (stats w) name of None \<Rightarrow> 0 | Some n \<Rightarrow> n) + 1) (stats w)\<rparr>"

definition call_callback ::
  "callback_env \<Rightarrow> string \<Rightarrow> jsval \<Rightarrow> nat \<Rightarrow> world \<Rightarrow> error option \<times> world" where
  \<comment> \<open>\<^verbatim>\<open>cb(eventType, eventArgs)\<close>\<close>
  "call_callback cenv eventType eventArgs cb w =
     react cb (cenv cb eventType eventArgs)
       (w\<lparr>trace := trace w @ [CallCallback cb eventType eventArgs]\<rparr>)"

partial_function (option) emit_loop ::
  "callback_env \<Rightarrow> string \<Rightarrow> jsval \<Rightarrow> nat \<Rightarrow> world \<Rightarrow> (error option \<times> world) option" where
  \<comment> \<open>\<^verbatim>\<open>for (const cb of callbacks) cb(eventType, eventArgs)\<close> from index \<open>i\<close>. The
      array iterator reads the length and the element of the array as it is at each
      step, so it sees what the callbacks called so far have registered or removed. An
      exception leaves the loop and the function. Callbacks that keep registering
      callbacks for the event type keep the loop running: the result is then \<open>None\<close>.
      The array is the one registered under the event type; once there it stays.\<close>
  "emit_loop cenv eventType eventArgs i w =
     (case map_of (callbacks w) eventType of
        None \<Rightarrow> Some (None, w)
      | Some cbs \<Rightarrow>
          if i < length cbs then
            (case call_callback cenv eventType eventArgs (cbs ! i) w of
               (Some e, w') \<Rightarrow> Some (Some e, w')
             | (None, w') \<Rightarrow> emit_loop cenv eventType eventArgs (i + 1) w')
          else Some (None, w))"

definition emit ::
  "callback_env \<Rightarrow> string \<Rightarrow> jsval \<Rightarrow> world \<Rightarrow> (error option \<times> world) option" where
  \<comment> \<open>\<open>None\<close> when the call does not return\<close>
  "emit cenv eventType eventArgs w =
     (case map_of (callbacks w) eventType of
        None \<Rightarrow>
          if inherited eventType then Some (Some (TypeError ''callbacks is not iterable''), w)
          else Some (None, stats_bump (''loader-'' @ eventType) w)
      | Some cbs \<Rightarrow>
          (case emit_loop cenv eventType eventArgs 0 w of
             None \<Rightarrow> None
           | Some (Some e, w') \<Rightarrow> Some (Some e, w')
           | Some (None, w') \<Rightarrow> Some (None, stats_bump (''loader-'' @ eventType) w')))"

fun callback_calls :: "call list \<Rightarrow> nat list" where
  \<comment> \<open>the event callbacks invoked in a trace\<close>
  "callback_calls [] = []"
| "callback_calls (CallCallback cb eventType eventArgs # rest) = cb # callback_calls rest"
| "callback_calls (c # rest) = callback_calls rest"

fun keeps_callbacks :: "action list \<Rightarrow> bool" where
  \<comment> \<open>none of the operations registers or removes an event callback\<close>
  "keeps_callbacks [] = True"
| "keeps_callbacks (AOn eventType cb # rest) = False"
| "keeps_callbacks (AOff eventType cb # rest) = False"
| "keeps_callbacks (a # rest) = keeps_callbacks rest"

definition returns :: "callback_env \<Rightarrow> string \<Rightarrow> jsval \<Rightarrow> nat \<Rightarrow> bool" where
  \<comment> \<open>the callback does not throw when called with these arguments\<close>
  "returns cenv eventType eventArgs cb = (\<not> throws (cenv cb eventType eventArgs))"

definition attempted :: "callback_env \<Rightarrow> string \<Rightarrow> jsval \<Rightarrow> nat list \<Rightarrow> nat list" where
  \<comment> \<open>the callbacks up to and including the first one that throws; all of them when
      none does\<close>
  "attempted cenv eventType eventArgs cbs =
     take (Suc (length (takeWhile (returns cenv eventType eventArgs) cbs))) cbs"

fun call_in_order ::
  "callback_env \<Rightarrow> string \<Rightarrow> jsval \<Rightarrow> nat list \<Rightarrow> world \<Rightarrow> error option \<times> world" where
  \<comment> \<open>the callbacks of a given list called one after the other, up to the first
      exception\<close>
  "call_in_order cenv eventType eventArgs [] w = (None, w)"
| "call_in_order cenv eventType eventArgs (cb # cbs) w =
     (case call_callback cenv eventType eventArgs cb w of
        (Some e, w') \<Rightarrow> (Some e, w')
      | (None, w') \<Rightarrow> call_in_order cenv eventType eventArgs cbs w')"

definition leaving_callback :: callback_env where
  \<comment> \<open>callback 1 removes itself when called\<close>
  "leaving_callback cb eventType eventArgs =
     \<lparr>acts = (if cb = 1 then [AOff eventType 1] else []), throws = False\<rparr>"

definition inviting_callback :: callback_env where
  \<comment> \<open>callback 1 registers callback 3 when called\<close>
  "inviting_callback cb eventType eventArgs =
     \<lparr>acts = (if cb = 1 then [AOn eventType 3] else []), throws = False\<rparr>"

definition breeding_callback :: callback_env where
  \<comment> \<open>every callback registers itself once more when called\<close>
  "breeding_callback cb eventType eventArgs = \<lparr>acts = [AOn eventType cb], throws = False\<rparr>"

section \<open>The connection operations of the base class\<close>

definition isOpen :: "world \<Rightarrow> (error + jsval) \<times> world" where
  "isOpen w = (Inr (Bool False), w)"

definition connect :: "world \<Rightarrow> (error + jsval) \<times> world" where
  "connect w = (Inl (Error ''not implemented''), w)"

definition close :: "world \<Rightarrow> (error + jsval) \<times> world" where
  "close w = (Inl (Error ''not implemented''), w)"

definition getBufferRange :: "world \<Rightarrow> (error + jsval) \<times> world" where
  "getBufferRange w = (Inl (Error ''not implemented''), w)"

section \<open>Memoized selectors\<close>

definition getCurrentTime :: "world \<Rightarrow> jsval" where
  "getCurrentTime w = get ''timestamp'' w"

definition getLookAhead :: "world \<Rightarrow> jsval" where
  "getLookAhead w = get ''lookAhead'' w"

definition getMetadata :: "world \<Rightarrow> jsval" where
  "getMetadata w = get ''metadata'' w"

definition getStreamSettings :: "world \<Rightarrow> jsval" where
  "getStreamSettings w = get ''streamSettings'' w"

definition getLogSynchronizer :: "world \<Rightarrow> jsval" where
  "getLogSynchronizer w = get ''logSynchronizer'' w"

definition getStreams_input :: "world \<Rightarrow> jsval" where
  \<comment> \<open>\<^verbatim>\<open>_getStreams\<close>\<close>
  "getStreams_input w = get ''streams'' w"

definition same_inputs :: "jsval list \<Rightarrow> jsval list \<Rightarrow> bool" where
  "same_inputs prev cur = list_all2 strict_eq prev cur"

definition cached :: "cache \<Rightarrow> jsval list \<Rightarrow> jsval option" where
  \<comment> \<open>the cached output, when there is one and no input has changed\<close>
  "cached c ins =
     (case c of
        None \<Rightarrow> None
      | Some (prev, out) \<Rightarrow> if same_inputs prev ins then Some out else None)"

definition createSelector ::
  "(world \<Rightarrow> cache) \<Rightarrow> (cache \<Rightarrow> world \<Rightarrow> world) \<Rightarrow>
   (world \<Rightarrow> (error + jsval list) \<times> world) \<Rightarrow>
   (jsval list \<Rightarrow> world \<Rightarrow> (error + jsval) \<times> world) \<Rightarrow>
   world \<Rightarrow> (error + jsval) \<times> world" where
  \<comment> \<open>Modelled from the spec: \<^verbatim>\<open>createSelector\<close> of \<^verbatim>\<open>utils/create-selector\<close> is not
      among the sources. A selector evaluates its input producers, compares the inputs
      element-wise with those of the previous computation (identity for objects, equality
      for primitives), returns the cached output when none has changed, and otherwise
      calls the combinator and caches the inputs with the new output. \<open>rd\<close> and \<open>wr\<close>
      read and write the selector's cache slot. An exception of an input producer or of
      the combinator reaches the caller and caches nothing.\<close>
  "createSelector rd wr inputs combiner w =
     (case inputs w of
        (Inl e, w1) \<Rightarrow> (Inl e, w1)
      | (Inr ins, w1) \<Rightarrow>
          (case cached (rd w1) ins of
             Some out \<Rightarrow> (Inr out, w1)
           | None \<Rightarrow>
               (case combiner ins w1 of
                  (Inl e, w2) \<Rightarrow> (Inl e, w2)
                | (Inr out, w2) \<Rightarrow> (Inr out, wr (Some (ins, out)) w2))))"

subsection \<open>Visible streams\<close>

text \<open>
  The streams and the stream settings are plain mappings. For a value of another shape
  only what every object has is modelled: no property of its own, and the members
  inherited from \<^verbatim>\<open>Object.prototype\<close>.
\<close>

definition own_props :: "world \<Rightarrow> jsval \<Rightarrow> props" where
  \<comment> \<open>the own enumerable properties of a value, which an object spread \<^verbatim>\<open>{...v}\<close>
      copies: those of a plain mapping, none of \<^verbatim>\<open>undefined\<close> or \<^verbatim>\<open>null\<close>\<close>
  "own_props w v =
     (case v of
        Ref a \<Rightarrow> (case heap w a of Some (Plain ps) \<Rightarrow> ps | _ \<Rightarrow> [])
      | _ \<Rightarrow> [])"

definition js_keys :: "world \<Rightarrow> jsval \<Rightarrow> string list" where
  \<comment> \<open>the names \<^verbatim>\<open>for (name in v)\<close> enumerates: those of a plain mapping, in order\<close>
  "js_keys w v =
     (case v of
        Ref a \<Rightarrow> (case heap w a of Some (Plain ps) \<Rightarrow> map fst ps | _ \<Rightarrow> [])
      | _ \<Rightarrow> [])"

definition js_prop :: "world \<Rightarrow> jsval \<Rightarrow> string \<Rightarrow> jsval" where
  \<comment> \<open>\<^verbatim>\<open>v[name]\<close> for a value \<open>v\<close> that is not \<^verbatim>\<open>undefined\<close> or \<^verbatim>\<open>null\<close>\<close>
  "js_prop w v name = js_member (own_props w v) name"

definition alloc :: "obj \<Rightarrow> world \<Rightarrow> nat \<times> world" where
  \<comment> \<open>a new object, at an address never handed out before\<close>
  "alloc ob w = (next_ref w, w\<lparr>heap := (heap w)(next_ref w \<mapsto> ob), next_ref := next_ref w + 1\<rparr>)"

definition unused :: "world \<Rightarrow> nat \<Rightarrow> bool" where
  \<comment> \<open>no object lives at the address and no attribute of the loader refers to it\<close>
  "unused w a = (heap w a = None \<and> list_all (\<lambda>(key, val). val \<noteq> Ref a) (state w))"

fun streams_loop :: "world \<Rightarrow> jsval \<Rightarrow> jsval \<Rightarrow> string list \<Rightarrow> props \<Rightarrow> props" where
  \<comment> \<open>the \<^verbatim>\<open>for (const streamName in streams)\<close> loop filling \<^verbatim>\<open>result\<close>\<close>
  "streams_loop w streamSettings strms [] result = result"
| "streams_loop w streamSettings strms (streamName # names) result =
     streams_loop w streamSettings strms names
       (if truthy (js_prop w streamSettings streamName)
        then js_assign streamName (js_prop w strms streamName) result
        else result)"

definition getStreams_fn :: "jsval \<Rightarrow> jsval \<Rightarrow> world \<Rightarrow> jsval \<times> world" where
  \<comment> \<open>the combinator of \<^verbatim>\<open>getStreams\<close>; \<^verbatim>\<open>result\<close> is a new object\<close>
  "getStreams_fn streamSettings strms w =
     (if \<not> truthy streamSettings \<or> \<not> truthy strms then (strms, w)
      else
        (let result = streams_loop w streamSettings strms (js_keys w strms) [];
             (a, w1) = alloc (Plain result) w
         in (Ref a, w1)))"

definition streams_cache_valid :: "world \<Rightarrow> bool" where
  \<comment> \<open>the cache of \<^verbatim>\<open>getStreams\<close> is empty or holds, for the inputs it holds, what the
      combinator returns on them: the streams themselves, or an object with the filtered
      entries\<close>
  "streams_cache_valid w =
     (case sel_streams w of
        None \<Rightarrow> True
      | Some (ins, out) \<Rightarrow>
          (case ins of
             [streamSettings, strms] \<Rightarrow>
               (if \<not> truthy streamSettings \<or> \<not> truthy strms then out = strms
                else
                  (case out of
                     Ref r \<Rightarrow>
                       heap w r
                         = Some (Plain (streams_loop w streamSettings strms (js_keys w strms) []))
                   | _ \<Rightarrow> False))
           | _ \<Rightarrow> False))"

definition getStreams :: "world \<Rightarrow> (error + jsval) \<times> world" where
  "getStreams =
     createSelector sel_streams (\<lambda>c w. w\<lparr>sel_streams := c\<rparr>)
       (\<lambda>w. (Inr [getStreamSettings w, getStreams_input w], w))
       (\<lambda>ins w.
          (case ins of
             [streamSettings, strms] \<Rightarrow>
               (case getStreams_fn streamSettings strms w of (v, w1) \<Rightarrow> (Inr v, w1))
           | _ \<Rightarrow> (Inr Undefined, w)))"

definition with_streams :: world where
  \<comment> \<open>a new loader with three streams, the first enabled, the second disabled and the
      third without a setting\<close>
  "with_streams =
     constructor\<lparr>state := [(''streams'', Ref 0), (''streamSettings'', Ref 1)],
       heap := [0 \<mapsto> Plain [(''/a'', Num (Fin 1)), (''/b'', Num (Fin 2)), (''/c'', Num (Fin 3))],
                1 \<mapsto> Plain [(''/a'', Bool True), (''/b'', Bool False)]],
       next_ref := 2\<rparr>"

definition with_inherited :: world where
  \<comment> \<open>a new loader with the streams \<^verbatim>\<open>/a\<close>, \<^verbatim>\<open>constructor\<close> and \<^verbatim>\<open>__proto__\<close>, of
      which only the first has a setting\<close>
  "with_inherited =
     constructor\<lparr>state := [(''streams'', Ref 0), (''streamSettings'', Ref 1)],
       heap := [0 \<mapsto> Plain [(''/a'', Num (Fin 1)), (''constructor'', Num (Fin 2)),
                             (''__proto__'', Num (Fin 3))],
                1 \<mapsto> Plain [(''/a'', Bool True)]],
       next_ref := 2\<rparr>"

subsection \<open>Log bounds\<close>

record xviz_config =
  TIME_WINDOW :: jsnum

definition meta_of :: "world \<Rightarrow> jsval \<Rightarrow> metadata option" where
  \<comment> \<open>the metadata object a value refers to\<close>
  "meta_of w v =
     (case v of
        Ref a \<Rightarrow> (case heap w a of Some (Meta m) \<Rightarrow> Some m | _ \<Rightarrow> None)
      | _ \<Rightarrow> None)"

definition num_field :: "jsnum option \<Rightarrow> jsval" where
  "num_field x = (case x of None \<Rightarrow> Undefined | Some n \<Rightarrow> Num n)"

definition getLogStartTime_fn :: "xviz_config \<Rightarrow> jsval \<Rightarrow> world \<Rightarrow> jsval" where
  \<comment> \<open>\<^verbatim>\<open>metadata && metadata.start_time && metadata.start_time + getXVIZConfig().TIME_WINDOW\<close>;
      the configuration of \<^verbatim>\<open>@xviz/parser\<close> is the parameter \<open>cfg\<close>\<close>
  "getLogStartTime_fn cfg md w =
     (if \<not> truthy md then md
      else
        (case meta_of w md of
           None \<Rightarrow> Undefined
         | Some m \<Rightarrow>
             (case start_time m of
                None \<Rightarrow> Undefined
              | Some n \<Rightarrow> if \<not> truthy (Num n) then Num n else Num (js_add n (TIME_WINDOW cfg)))))"

definition getLogEndTime_fn :: "jsval \<Rightarrow> world \<Rightarrow> jsval" where
  \<comment> \<open>\<^verbatim>\<open>metadata && metadata.end_time\<close>\<close>
  "getLogEndTime_fn md w =
     (if \<not> truthy md then md
      else (case meta_of w md of None \<Rightarrow> Undefined | Some m \<Rightarrow> num_field (end_time m)))"

definition getLogStartTime :: "xviz_config \<Rightarrow> world \<Rightarrow> (error + jsval) \<times> world" where
  "getLogStartTime cfg =
     createSelector sel_start (\<lambda>c w. w\<lparr>sel_start := c\<rparr>)
       (\<lambda>w. (Inr [getMetadata w], w))
       (\<lambda>ins w.
          (case ins of
             [md] \<Rightarrow> (Inr (getLogStartTime_fn cfg md w), w)
           | _ \<Rightarrow> (Inr Undefined, w)))"

definition getLogEndTime :: "world \<Rightarrow> (error + jsval) \<times> world" where
  "getLogEndTime =
     createSelector sel_end (\<lambda>c w. w\<lparr>sel_end := c\<rparr>)
       (\<lambda>w. (Inr [getMetadata w], w))
       (\<lambda>ins w.
          (case ins of
             [md] \<Rightarrow> (Inr (getLogEndTime_fn md w), w)
           | _ \<Rightarrow> (Inr Undefined, w)))"

definition getBufferStart :: "xviz_config \<Rightarrow> world \<Rightarrow> (error + jsval) \<times> world" where
  "getBufferStart cfg w = getLogStartTime cfg w"

definition getBufferEnd :: "world \<Rightarrow> (error + jsval) \<times> world" where
  "getBufferEnd w = getLogEndTime w"

definition start_cache_valid :: "xviz_config \<Rightarrow> world \<Rightarrow> bool" where
  \<comment> \<open>the cache of \<^verbatim>\<open>getLogStartTime\<close> is empty or holds the combinator's value on the
      input it holds; this is so as long as metadata objects and the configuration are
      not modified once stored\<close>
  "start_cache_valid cfg w =
     (case sel_start w of
        None \<Rightarrow> True
      | Some (ins, out) \<Rightarrow> (case ins of [md] \<Rightarrow> out = getLogStartTime_fn cfg md w | _ \<Rightarrow> False))"

definition end_cache_valid :: "world \<Rightarrow> bool" where
  \<comment> \<open>likewise for \<^verbatim>\<open>getLogEndTime\<close>\<close>
  "end_cache_valid w =
     (case sel_end w of
        None \<Rightarrow> True
      | Some (ins, out) \<Rightarrow> (case ins of [md] \<Rightarrow> out = getLogEndTime_fn md w | _ \<Rightarrow> False))"

definition with_metadata :: "real \<Rightarrow> real \<Rightarrow> world" where
  \<comment> \<open>a new loader holding the metadata \<^verbatim>\<open>{start_time: s, end_time: e}\<close>\<close>
  "with_metadata s e =
     constructor\<lparr>state := [(''metadata'', Ref 0)],
       heap := [0 \<mapsto> Meta \<lparr>start_time = Some (Fin s), end_time = Some (Fin e), meta_streams = Undefined\<rparr>],
       next_ref := 1\<rparr>"

definition with_open_metadata :: "real \<Rightarrow> world" where
  \<comment> \<open>a new loader holding the metadata \<^verbatim>\<open>{start_time: s}\<close> of a log without an end
      time\<close>
  "with_open_metadata s =
     constructor\<lparr>state := [(''metadata'', Ref 0)],
       heap := [0 \<mapsto> Meta \<lparr>start_time = Some (Fin s), end_time = None, meta_streams = Undefined\<rparr>],
       next_ref := 1\<rparr>"

subsection \<open>The current frame\<close>

text \<open>
  The synchronizer is an external collaborator. Its two setters retain the value pushed;
  the frame it returns is a function \<open>frame_of\<close> of its address, the state it retains
  and the stream settings it is asked with, left open as a parameter.
\<close>

definition sync_of :: "world \<Rightarrow> jsval \<Rightarrow> nat option" where
  \<comment> \<open>the address of the synchronizer a value refers to\<close>
  "sync_of w v =
     (case v of
        Ref a \<Rightarrow> (case heap w a of Some (Sync s) \<Rightarrow> Some a | _ \<Rightarrow> None)
      | _ \<Rightarrow> None)"

definition sync_setTime :: "nat \<Rightarrow> jsval \<Rightarrow> world \<Rightarrow> world" where
  "sync_setTime a t w =
     (case heap w a of
        Some (Sync s) \<Rightarrow>
          w\<lparr>heap := (heap w)(a \<mapsto> Sync (s\<lparr>sync_time := t\<rparr>)), trace := trace w @ [SetTime a t]\<rparr>
      | _ \<Rightarrow> w)"

definition sync_setLookAheadTimeOffset :: "nat \<Rightarrow> jsval \<Rightarrow> world \<Rightarrow> world" where
  "sync_setLookAheadTimeOffset a offset w =
     (case heap w a of
        Some (Sync s) \<Rightarrow>
          w\<lparr>heap := (heap w)(a \<mapsto> Sync (s\<lparr>sync_lookAhead := offset\<rparr>)),
            trace := trace w @ [SetLookAheadTimeOffset a offset]\<rparr>
      | _ \<Rightarrow> w)"

definition sync_getCurrentFrame ::
  "(nat \<Rightarrow> synchronizer \<Rightarrow> jsval \<Rightarrow> jsval) \<Rightarrow> nat \<Rightarrow> jsval \<Rightarrow> world \<Rightarrow> jsval \<times> world" where
  "sync_getCurrentFrame frame_of a streamSettings w =
     (case heap w a of
        Some (Sync s) \<Rightarrow>
          (frame_of a s streamSettings, w\<lparr>trace := trace w @ [GetCurrentFrame a streamSettings]\<rparr>)
      | _ \<Rightarrow> (Undefined, w))"

definition getCurrentFrame_fn ::
  "(nat \<Rightarrow> synchronizer \<Rightarrow> jsval \<Rightarrow> jsval) \<Rightarrow> jsval \<Rightarrow> jsval \<Rightarrow> jsval \<Rightarrow> jsval \<Rightarrow> world \<Rightarrow>
   (error + jsval) \<times> world" where
  \<comment> \<open>the combinator of \<^verbatim>\<open>getCurrentFrame\<close>; a truthy \<^verbatim>\<open>logSynchronizer\<close> that is not
      a synchronizer has no \<^verbatim>\<open>setTime\<close> method, and calling it is a TypeError\<close>
  "getCurrentFrame_fn frame_of logSynchronizer streamSettings timestamp lookAhead w =
     (if truthy logSynchronizer \<and> isFinite timestamp then
        (case sync_of w logSynchronizer of
           None \<Rightarrow> (Inl (TypeError ''logSynchronizer.setTime is not a function''), w)
         | Some a \<Rightarrow>
             (let w1 = sync_setTime a timestamp w;
                  w2 = sync_setLookAheadTimeOffset a lookAhead w1;
                  (frame, w3) = sync_getCurrentFrame frame_of a streamSettings w2
              in (Inr frame, w3)))
      else (Inr Null, w))"

definition getCurrentFrame_inputs :: "world \<Rightarrow> (error + jsval list) \<times> world" where
  \<comment> \<open>the five input producers, evaluated in order; the last is itself a selector\<close>
  "getCurrentFrame_inputs w =
     (case getStreams w of
        (Inl e, w1) \<Rightarrow> (Inl e, w1)
      | (Inr strms, w1) \<Rightarrow>
          (Inr [getLogSynchronizer w, getStreamSettings w, getCurrentTime w, getLookAhead w, strms],
           w1))"

definition getCurrentFrame ::
  "(nat \<Rightarrow> synchronizer \<Rightarrow> jsval \<Rightarrow> jsval) \<Rightarrow> world \<Rightarrow> (error + jsval) \<times> world" where
  "getCurrentFrame frame_of =
     createSelector sel_frame (\<lambda>c w. w\<lparr>sel_frame := c\<rparr>)
       getCurrentFrame_inputs
       (\<lambda>ins w.
          (case ins of
             [logSynchronizer, streamSettings, timestamp, lookAhead, strms] \<Rightarrow>
               getCurrentFrame_fn frame_of logSynchronizer streamSettings timestamp lookAhead w
           | _ \<Rightarrow> (Inr Undefined, w)))"

definition frame_recomputes :: "world \<Rightarrow> bool" where
  \<comment> \<open>\<^verbatim>\<open>getCurrentFrame\<close> computes its result: nothing is cached, or an input has
      changed\<close>
  "frame_recomputes w =
     (case getCurrentFrame_inputs w of
        (Inr ins, w1) \<Rightarrow> cached (sel_frame w1) ins = None
      | (Inl e, w1) \<Rightarrow> False)"

definition with_synchronizer :: world where
  \<comment> \<open>a new loader with a synchronizer, the timestamp 12 and the look-ahead 3\<close>
  "with_synchronizer =
     constructor\<lparr>state := [(''logSynchronizer'', Ref 0), (''timestamp'', Num (Fin 12)),
                           (''lookAhead'', Num (Fin 3))],
       heap := [0 \<mapsto> Sync \<lparr>sync_time = Undefined, sync_lookAhead = Undefined\<rparr>],
       next_ref := 1\<rparr>"

section \<open>The time controller\<close>

fun seek_target :: "jsnum \<Rightarrow> jsval \<Rightarrow> jsval \<Rightarrow> jsnum" where
  \<comment> \<open>the timestamp \<^verbatim>\<open>seek\<close> writes: clamped when both bounds pass
      \<^verbatim>\<open>Number.isFinite\<close>, as given otherwise\<close>
  "seek_target timestamp (Num (Fin s)) (Num (Fin e)) = clamp timestamp (Fin s) (Fin e)"
| "seek_target timestamp startTime endTime = timestamp"

definition seek :: "xviz_config \<Rightarrow> jsnum \<Rightarrow> world \<Rightarrow> error option \<times> world" where
  "seek cfg timestamp w =
     (if truthy (getMetadata w) then
        (case getLogStartTime cfg w of
           (Inl e, w1) \<Rightarrow> (Some e, w1)
         | (Inr startTime, w1) \<Rightarrow>
             (case getLogEndTime w1 of
                (Inl e, w2) \<Rightarrow> (Some e, w2)
              | (Inr endTime, w2) \<Rightarrow>
                  (None, set_attr ''timestamp'' (Num (seek_target timestamp startTime endTime)) w2)))
      else (None, set_attr ''timestamp'' (Num timestamp) w))"

definition setLookAhead :: "jsval \<Rightarrow> world \<Rightarrow> world" where
  "setLookAhead lookAhead w = set_attr ''lookAhead'' lookAhead w"

fun spread :: "props \<Rightarrow> props \<Rightarrow> props" where
  \<comment> \<open>copies the properties of the second list into the first, in order; a spread
      defines each property on the new object, whatever its name\<close>
  "spread target [] = target"
| "spread target ((name, val) # rest) = spread (AList.update name val target) rest"

definition updateStreamSettings :: "props \<Rightarrow> world \<Rightarrow> world" where
  \<comment> \<open>\<open>settings\<close> are the properties of the argument object;
      \<^verbatim>\<open>{...streamSettings, ...settings}\<close> is a new object\<close>
  "updateStreamSettings settings w =
     (let streamSettings = get ''streamSettings'' w;
          (a, w1) = alloc (Plain (spread (spread [] (own_props w streamSettings)) settings)) w
      in set_attr ''streamSettings'' (Ref a) w1)"

definition setMetadata :: "xviz_config \<Rightarrow> nat \<Rightarrow> world \<Rightarrow> error option \<times> world" where
  \<comment> \<open>\<^verbatim>\<open>_setMetadata(metadata)\<close>, with the address of the metadata object\<close>
  "setMetadata cfg a w =
     (let w1 = set_attr ''metadata'' (Ref a) w;
          m = meta_of w1 (Ref a);
          strms = (case m of None \<Rightarrow> Undefined | Some x \<Rightarrow> meta_streams x);
          w2 = (if truthy strms \<and> length (js_keys w1 strms) > 0
                then set_attr ''streamSettings'' strms w1 else w1);
          timestamp = get ''timestamp'' w2;
          newTimestamp =
            (if isFinite timestamp then timestamp
             else (case m of None \<Rightarrow> Undefined | Some x \<Rightarrow> num_field (start_time x)))
      in (case newTimestamp of
            Num (Fin t) \<Rightarrow> seek cfg (Fin t) w2
          | _ \<Rightarrow> (None, w2)))"

section \<open>Reachable worlds\<close>

definition allocated :: "world \<Rightarrow> jsval \<Rightarrow> bool" where
  \<comment> \<open>a reference points below the allocation pointer\<close>
  "allocated w v = (case v of Ref a \<Rightarrow> a < next_ref w | _ \<Rightarrow> True)"

definition cache_allocated :: "world \<Rightarrow> cache \<Rightarrow> bool" where
  "cache_allocated w c =
     (case c of None \<Rightarrow> True | Some (ins, out) \<Rightarrow> list_all (allocated w) ins \<and> allocated w out)"

definition is_sync :: "obj option \<Rightarrow> bool" where
  "is_sync ob = (case ob of Some (Sync s) \<Rightarrow> True | _ \<Rightarrow> False)"

definition heap_grows :: "world \<Rightarrow> world \<Rightarrow> bool" where
  \<comment> \<open>the objects allocated so far are kept; only a synchronizer may change its state\<close>
  "heap_grows w w' =
     (next_ref w \<le> next_ref w' \<and>
      (\<forall>a<next_ref w. heap w' a = heap w a \<or> (is_sync (heap w a) \<and> is_sync (heap w' a))))"

definition consistent :: "xviz_config \<Rightarrow> world \<Rightarrow> bool" where
  \<comment> \<open>nothing lives at or beyond the allocation pointer, the attributes and the caches
      refer to allocated objects only, and the three caches are valid\<close>
  "consistent cfg w =
     ((\<forall>a. next_ref w \<le> a \<longrightarrow> heap w a = None)
      \<and> list_all (\<lambda>(key, val). allocated w val) (state w)
      \<and> cache_allocated w (sel_streams w) \<and> cache_allocated w (sel_start w)
      \<and> cache_allocated w (sel_end w)
      \<and> streams_cache_valid w \<and> start_cache_valid cfg w \<and> end_cache_valid w)"

definition action_allocated :: "world \<Rightarrow> action \<Rightarrow> bool" where
  \<comment> \<open>a value written by a client refers to an allocated object\<close>
  "action_allocated w a = (case a of ASet key val \<Rightarrow> allocated w val | _ \<Rightarrow> True)"

text \<open>
  The worlds reached from a new loader by the operations of the class, the host's
  animation frame, and clients that create objects and pass references to allocated
  objects only.
\<close>

inductive reachable ::
  "xviz_config \<Rightarrow> listener_env \<Rightarrow> callback_env \<Rightarrow> (nat \<Rightarrow> synchronizer \<Rightarrow> jsval \<Rightarrow> jsval) \<Rightarrow>
   world \<Rightarrow> bool"
  for cfg :: xviz_config and lenv :: listener_env and cenv :: callback_env
    and frame_of :: "nat \<Rightarrow> synchronizer \<Rightarrow> jsval \<Rightarrow> jsval"
where
  r_new: "reachable cfg lenv cenv frame_of constructor"
| r_object: "reachable cfg lenv cenv frame_of w \<Longrightarrow> reachable cfg lenv cenv frame_of (snd (alloc ob w))"
| r_set: "reachable cfg lenv cenv frame_of w \<Longrightarrow> allocated w val \<Longrightarrow>
    reachable cfg lenv cenv frame_of (set_attr key val w)"
| r_seek: "reachable cfg lenv cenv frame_of w \<Longrightarrow> reachable cfg lenv cenv frame_of (snd (seek cfg t w))"
| r_setLookAhead: "reachable cfg lenv cenv frame_of w \<Longrightarrow> allocated w lookAhead \<Longrightarrow>
    reachable cfg lenv cenv frame_of (setLookAhead lookAhead w)"
| r_updateStreamSettings: "reachable cfg lenv cenv frame_of w \<Longrightarrow>
    reachable cfg lenv cenv frame_of (updateStreamSettings settings w)"
| r_setMetadata: "reachable cfg lenv cenv frame_of w \<Longrightarrow> a < next_ref w \<Longrightarrow>
    \<forall>m. heap w a = Some (Meta m) \<longrightarrow> allocated w (meta_streams m) \<Longrightarrow>
    reachable cfg lenv cenv frame_of (snd (setMetadata cfg a w))"
| r_subscribe: "reachable cfg lenv cenv frame_of w \<Longrightarrow> reachable cfg lenv cenv frame_of (subscribe inst w)"
| r_unsubscribe: "reachable cfg lenv cenv frame_of w \<Longrightarrow>
    reachable cfg lenv cenv frame_of (unsubscribe inst w)"
| r_on: "reachable cfg lenv cenv frame_of w \<Longrightarrow>
    reachable cfg lenv cenv frame_of (snd (on eventType cb w))"
| r_off: "reachable cfg lenv cenv frame_of w \<Longrightarrow>
    reachable cfg lenv cenv frame_of (snd (off eventType cb w))"
| r_emit: "reachable cfg lenv cenv frame_of w \<Longrightarrow>
    \<forall>cb. list_all (action_allocated w) (acts (cenv cb eventType eventArgs)) \<Longrightarrow>
    emit cenv eventType eventArgs w = Some (r, w') \<Longrightarrow>
    reachable cfg lenv cenv frame_of w'"
| r_frame: "reachable cfg lenv cenv frame_of w \<Longrightarrow>
    \<forall>f g. list_all (action_allocated w) (acts (lenv f g)) \<Longrightarrow>
    reachable cfg lenv cenv frame_of (animation_frame lenv w)"
| r_getStreams: "reachable cfg lenv cenv frame_of w \<Longrightarrow> reachable cfg lenv cenv frame_of (snd (getStreams w))"
| r_getLogStartTime: "reachable cfg lenv cenv frame_of w \<Longrightarrow>
    reachable cfg lenv cenv frame_of (snd (getLogStartTime cfg w))"
| r_getLogEndTime: "reachable cfg lenv cenv frame_of w \<Longrightarrow>
    reachable cfg lenv cenv frame_of (snd (getLogEndTime w))"
| r_getCurrentFrame: "reachable cfg lenv cenv frame_of w \<Longrightarrow>
    reachable cfg lenv cenv frame_of (snd (getCurrentFrame frame_of w))"

definition tick_ok :: "world \<Rightarrow> bool" where
  \<comment> \<open>the host's queue holds exactly the pending tick, if there is one\<close>
  "tick_ok w =
     (updateTimer w \<noteq> Some 0 \<and>
      raf_queue w = (case updateTimer w of None \<Rightarrow> [] | Some h \<Rightarrow> [h]))"

section \<open>Writes that change nothing\<close>

lemma set_attr_same: "strict_eq (get key w) val \<Longrightarrow> set_attr key val w = w"
  by (simp add: set_attr_def strict_neq_def)

text \<open>
  Claim C3. A sequence of \<^verbatim>\<open>set(key, value)\<close> calls, each writing a value that is
  equal to the one stored under its key, leaves the whole world as it was: the stored
  values, the generation counter \<^verbatim>\<open>_version\<close>, the pending-tick handle and the host's
  animation-frame queue (no tick is armed). Equal is the \<^verbatim>\<open>===\<close> of the code, under
  which \<^verbatim>\<open>NaN\<close> is equal to nothing: writing \<^verbatim>\<open>NaN\<close> over \<^verbatim>\<open>NaN\<close> is not such a
  call.
\<close>

theorem set_unchanged_is_noop:
  "all_unchanged calls w \<Longrightarrow> set_all calls w = w"
proof (induction calls arbitrary: w)
  case Nil
  show ?case by simp
next
  case (Cons c calls)
  obtain key val where c: "c = (key, val)" by (cases c)
  from Cons.prems c have same: "strict_eq (get key w) val"
    and rest: "all_unchanged calls (set_attr key val w)" by simp_all
  from same have step: "set_attr key val w = w" by (rule set_attr_same)
  from rest step have "all_unchanged calls w" by simp
  then have "set_all calls w = w" by (rule Cons.IH)
  with c step show ?case by simp
qed

theorem set_unchanged_is_noop_witness:
  "all_unchanged [(''timestamp'', Num (Fin 5)), (''lookAhead'', Undefined)]
     (constructor\<lparr>state := [(''timestamp'', Num (Fin 5))], version := 3\<rparr>)
   \<and> set_all [(''timestamp'', Num (Fin 5)), (''lookAhead'', Undefined)]
       (constructor\<lparr>state := [(''timestamp'', Num (Fin 5))], version := 3\<rparr>)
     = constructor\<lparr>state := [(''timestamp'', Num (Fin 5))], version := 3\<rparr>"
proof -
  have h: "all_unchanged [(''timestamp'', Num (Fin 5)), (''lookAhead'', Undefined)]
     (constructor\<lparr>state := [(''timestamp'', Num (Fin 5))], version := 3\<rparr>)"
    by (simp add: get_def js_member_def inherited_def object_prototype_def strict_eq_def
        strict_neq_def set_attr_def constructor_def)
  show ?thesis using h set_unchanged_is_noop [OF h] by simp
qed

section \<open>The abstract connection operations\<close>

text \<open>
  Claim C6, as stated, asks \<^verbatim>\<open>isOpen\<close>, \<^verbatim>\<open>connect\<close> and \<^verbatim>\<open>close\<close> of the base
  class to throw. \<^verbatim>\<open>isOpen\<close> does not: on the loader as constructed it returns
  \<^verbatim>\<open>false\<close> and throws nothing.
\<close>

theorem isOpen_counterexample:
  "fst (isOpen constructor) = Inr (Bool False)
   \<and> fst (isOpen constructor) \<noteq> Inl (Error ''not implemented'')
   \<and> snd (isOpen constructor) = constructor"
  by (simp add: isOpen_def)

text \<open>
  Claim C6, amended. On the base class \<^verbatim>\<open>connect\<close> and \<^verbatim>\<open>close\<close> throw the error
  \<^verbatim>\<open>not implemented\<close> to their caller and change nothing; \<^verbatim>\<open>isOpen\<close> throws nothing,
  returns \<^verbatim>\<open>false\<close> and changes nothing.
\<close>

theorem connect_close_not_implemented:
  "connect w = (Inl (Error ''not implemented''), w)
   \<and> close w = (Inl (Error ''not implemented''), w)
   \<and> isOpen w = (Inr (Bool False), w)"
  by (simp add: connect_def close_def isOpen_def)

section \<open>Emitting an event\<close>

lemma perform_trace: "trace (snd (perform a w)) = trace w"
  by (cases a)
    (simp_all add: set_attr_def requestAnimationFrame_def subscribe_def unsubscribe_def
      on_def off_def Let_def split: option.splits)

lemma perform_stats: "stats (snd (perform a w)) = stats w"
  by (cases a)
    (simp_all add: set_attr_def requestAnimationFrame_def subscribe_def unsubscribe_def
      on_def off_def Let_def split: option.splits)

lemma perform_all_trace: "trace (snd (perform_all as w)) = trace w"
proof (induction as arbitrary: w)
  case Nil
  show ?case by simp
next
  case (Cons a as)
  obtain r w1 where p: "perform a w = (r, w1)" by (cases "perform a w")
  from perform_trace [of a w] p have t: "trace w1 = trace w" by simp
  show ?case
  proof (cases r)
    case None
    with p t Cons.IH [of w1] show ?thesis by simp
  next
    case (Some e)
    with p t show ?thesis by simp
  qed
qed

lemma perform_all_stats: "stats (snd (perform_all as w)) = stats w"
proof (induction as arbitrary: w)
  case Nil
  show ?case by simp
next
  case (Cons a as)
  obtain r w1 where p: "perform a w = (r, w1)" by (cases "perform a w")
  from perform_stats [of a w] p have t: "stats w1 = stats w" by simp
  show ?case
  proof (cases r)
    case None
    with p t Cons.IH [of w1] show ?thesis by simp
  next
    case (Some e)
    with p t show ?thesis by simp
  qed
qed

lemma keeps_callbacks_perform_all:
  "keeps_callbacks as \<Longrightarrow>
   fst (perform_all as w) = None \<and> callbacks (snd (perform_all as w)) = callbacks w"
proof (induction as arbitrary: w)
  case Nil
  show ?case by simp
next
  case (Cons a as)
  show ?case
  proof (cases a)
    case (ASet key val)
    with Cons.prems have "keeps_callbacks as" by simp
    from Cons.IH [OF this, of "set_attr key val w"] ASet show ?thesis
      by (simp add: set_attr_def requestAnimationFrame_def Let_def)
  next
    case (ASubscribe inst)
    with Cons.prems have "keeps_callbacks as" by simp
    from Cons.IH [OF this, of "subscribe inst w"] ASubscribe show ?thesis
      by (simp add: subscribe_def)
  next
    case (AUnsubscribe inst)
    with Cons.prems have "keeps_callbacks as" by simp
    from Cons.IH [OF this, of "unsubscribe inst w"] AUnsubscribe show ?thesis
      by (simp add: unsubscribe_def)
  next
    case (AOn eventType cb)
    with Cons.prems show ?thesis by simp
  next
    case (AOff eventType cb)
    with Cons.prems show ?thesis by simp
  qed
qed

lemma call_callback_quiet:
  assumes "keeps_callbacks (acts (cenv cb et ea))"
  shows "fst (call_callback cenv et ea cb w)
           = (if throws (cenv cb et ea) then Some (Thrown cb) else None)"
    and "callbacks (snd (call_callback cenv et ea cb w)) = callbacks w"
    and "trace (snd (call_callback cenv et ea cb w)) = trace w @ [CallCallback cb et ea]"
    and "stats (snd (call_callback cenv et ea cb w)) = stats w"
proof -
  let ?w0 = "w\<lparr>trace := trace w @ [CallCallback cb et ea]\<rparr>"
  obtain w1 where p: "perform_all (acts (cenv cb et ea)) ?w0 = (None, w1)"
    using keeps_callbacks_perform_all [OF assms, of ?w0]
    by (cases "perform_all (acts (cenv cb et ea)) ?w0") simp
  from keeps_callbacks_perform_all [OF assms, of ?w0] p have c: "callbacks w1 = callbacks w"
    by simp
  from perform_all_trace [of "acts (cenv cb et ea)" ?w0] p
  have t: "trace w1 = trace w @ [CallCallback cb et ea]" by simp
  from perform_all_stats [of "acts (cenv cb et ea)" ?w0] p have s: "stats w1 = stats w" by simp
  have cc: "call_callback cenv et ea cb w
      = (if throws (cenv cb et ea) then Some (Thrown cb) else None, w1)"
    using p by (simp add: call_callback_def react_def)
  show "fst (call_callback cenv et ea cb w)
           = (if throws (cenv cb et ea) then Some (Thrown cb) else None)"
    by (simp add: cc)
  show "callbacks (snd (call_callback cenv et ea cb w)) = callbacks w" by (simp add: cc c)
  show "trace (snd (call_callback cenv et ea cb w)) = trace w @ [CallCallback cb et ea]"
    by (simp add: cc t)
  show "stats (snd (call_callback cenv et ea cb w)) = stats w" by (simp add: cc s)
qed

lemma callback_calls_append: "callback_calls (xs @ ys) = callback_calls xs @ callback_calls ys"
  by (induction xs rule: callback_calls.induct) simp_all

lemma call_in_order_quiet:
  assumes "\<forall>cb\<in>set cbs. keeps_callbacks (acts (cenv cb et ea))"
  shows "fst (call_in_order cenv et ea cbs w)
           = (if list_all (returns cenv et ea) cbs then None
              else Some (Thrown (cbs ! length (takeWhile (returns cenv et ea) cbs))))
       \<and> callback_calls (trace (snd (call_in_order cenv et ea cbs w)))
           = callback_calls (trace w) @ attempted cenv et ea cbs
       \<and> stats (snd (call_in_order cenv et ea cbs w)) = stats w"
  using assms
proof (induction cbs arbitrary: w)
  case Nil
  show ?case by (simp add: attempted_def)
next
  case (Cons cb cbs)
  from Cons.prems have q: "keeps_callbacks (acts (cenv cb et ea))"
    and rest: "\<forall>cb\<in>set cbs. keeps_callbacks (acts (cenv cb et ea))" by simp_all
  note c = call_callback_quiet [where cenv = cenv and cb = cb and et = et and ea = ea and w = w, OF q]
  obtain r w1 where cc: "call_callback cenv et ea cb w = (r, w1)"
    by (cases "call_callback cenv et ea cb w")
  from c cc have r: "r = (if throws (cenv cb et ea) then Some (Thrown cb) else None)"
    and t: "trace w1 = trace w @ [CallCallback cb et ea]" and s: "stats w1 = stats w"
    by simp_all
  show ?case
  proof (cases "throws (cenv cb et ea)")
    case True
    then have "\<not> returns cenv et ea cb" by (simp add: returns_def)
    with True cc r t s show ?thesis
      by (simp add: attempted_def callback_calls_append)
  next
    case False
    then have "returns cenv et ea cb" by (simp add: returns_def)
    with False cc r t s Cons.IH [OF rest, of w1] show ?thesis
      by (simp add: attempted_def callback_calls_append)
  qed
qed

lemma emit_loop_quiet:
  assumes quiet: "\<forall>cb\<in>set cbs. keeps_callbacks (acts (cenv cb et ea))"
  shows "map_of (callbacks w) et = Some cbs \<Longrightarrow> i \<le> length cbs \<Longrightarrow>
         emit_loop cenv et ea i w = Some (call_in_order cenv et ea (drop i cbs) w)"
proof (induction "length cbs - i" arbitrary: i w)
  case 0
  then have "drop i cbs = []" and "\<not> i < length cbs" by simp_all
  with "0.prems" show ?case by (subst emit_loop.simps) simp
next
  case (Suc n)
  then have lt: "i < length cbs" by simp
  then have d: "drop i cbs = cbs ! i # drop (i + 1) cbs" by (simp add: Cons_nth_drop_Suc)
  from lt quiet have q: "keeps_callbacks (acts (cenv (cbs ! i) et ea))" by simp
  obtain r w1 where cc: "call_callback cenv et ea (cbs ! i) w = (r, w1)"
    by (cases "call_callback cenv et ea (cbs ! i) w")
  from call_callback_quiet(2) [where cenv = cenv and cb = "cbs ! i" and et = et and ea = ea
      and w = w, OF q] cc Suc.prems(1)
  have reg1: "map_of (callbacks w1) et = Some cbs" by simp
  show ?case
  proof (cases r)
    case (Some e)
    with cc lt Suc.prems(1) d show ?thesis by (subst emit_loop.simps) simp
  next
    case None
    have "emit_loop cenv et ea (i + 1) w1 = Some (call_in_order cenv et ea (drop (i + 1) cbs) w1)"
      using Suc.hyps(2) lt reg1 by (intro Suc.hyps(1)) simp_all
    with None cc lt Suc.prems(1) d show ?thesis by (subst emit_loop.simps) simp
  qed
qed

text \<open>
  Claim C7, as stated, asks every callback of an event type to run even when one of them
  throws. With the callbacks 1 and 2 registered for \<^verbatim>\<open>update\<close> and callback 1 throwing,
  \<^verbatim>\<open>emit\<close> calls callback 1 only and the exception reaches its caller: callback 2 is
  never called.
\<close>

theorem emit_throw_counterexample:
  "map_of (callbacks (constructor\<lparr>callbacks := [(''update'', [1, 2])]\<rparr>)) ''update'' = Some [1, 2]
   \<and> throws ((\<lambda>cb eventType eventArgs. \<lparr>acts = [], throws = (cb = 1)\<rparr>) 1 ''update'' Null)
   \<and> emit (\<lambda>cb eventType eventArgs. \<lparr>acts = [], throws = (cb = 1)\<rparr>)
         ''update'' Null (constructor\<lparr>callbacks := [(''update'', [1, 2])]\<rparr>)
       = Some (Some (Thrown 1),
           constructor\<lparr>callbacks := [(''update'', [1, 2])], trace := [CallCallback 1 ''update'' Null]\<rparr>)
   \<and> callback_calls [CallCallback 1 ''update'' Null] = [1]"
  by (simp add: emit_def emit_loop.simps call_callback_def react_def constructor_def)

text \<open>
  Claim C7, amended. \<^verbatim>\<open>emit(eventType, payload)\<close> calls the callbacks registered for
  the event type in registration order up to and including the first one that throws;
  that exception reaches the caller of \<^verbatim>\<open>emit\<close> at once, the callbacks registered after
  it are not called and the statistics counter is not incremented. When no callback
  throws, every callback is called once, in order, \<^verbatim>\<open>emit\<close> returns and the counter is
  incremented. This is so for callbacks that call nothing of the loader but \<^verbatim>\<open>set\<close>,
  \<^verbatim>\<open>subscribe\<close> and \<^verbatim>\<open>unsubscribe\<close> while they run, so that none of them registers
  or removes an event callback: the loop walks the array of callbacks itself, which
  \<^verbatim>\<open>on\<close> and \<^verbatim>\<open>off\<close> change.
\<close>

theorem emit_stops_at_first_throw:
  assumes reg: "map_of (callbacks w) eventType = Some cbs"
    and quiet: "\<forall>cb\<in>set cbs. keeps_callbacks (acts (cenv cb eventType eventArgs))"
  shows "\<exists>w'. emit cenv eventType eventArgs w
             = Some (if list_all (returns cenv eventType eventArgs) cbs then None
                     else Some (Thrown (cbs ! length (takeWhile (returns cenv eventType eventArgs) cbs))),
                     w')
         \<and> callback_calls (trace w')
             = callback_calls (trace w) @ attempted cenv eventType eventArgs cbs
         \<and> stats w'
             = (if list_all (returns cenv eventType eventArgs) cbs
                then stats (stats_bump (''loader-'' @ eventType) w) else stats w)"
proof -
  obtain r w1 where loop: "call_in_order cenv eventType eventArgs cbs w = (r, w1)"
    by (cases "call_in_order cenv eventType eventArgs cbs w")
  from call_in_order_quiet [where cenv = cenv and et = eventType and ea = eventArgs and cbs = cbs
      and w = w, OF quiet] loop
  have res: "r = (if list_all (returns cenv eventType eventArgs) cbs then None
        else Some (Thrown (cbs ! length (takeWhile (returns cenv eventType eventArgs) cbs))))"
    and tr: "callback_calls (trace w1)
        = callback_calls (trace w) @ attempted cenv eventType eventArgs cbs"
    and st: "stats w1 = stats w"
    by simp_all
  have el: "emit_loop cenv eventType eventArgs 0 w = Some (r, w1)"
    using emit_loop_quiet [where cenv = cenv and et = eventType and ea = eventArgs and cbs = cbs
        and w = w and i = 0, OF quiet reg] loop by simp
  show ?thesis
  proof (cases "list_all (returns cenv eventType eventArgs) cbs")
    case True
    with res have "r = None" by simp
    with reg el have "emit cenv eventType eventArgs w
        = Some (None, stats_bump (''loader-'' @ eventType) w1)"
      by (simp add: emit_def)
    with True tr st show ?thesis by (simp add: stats_bump_def)
  next
    case False
    with res obtain e where e: "r = Some e"
      and e': "e = Thrown (cbs ! length (takeWhile (returns cenv eventType eventArgs) cbs))"
      by simp
    with reg el have "emit cenv eventType eventArgs w = Some (Some e, w1)"
      by (simp add: emit_def)
    with False tr st e' show ?thesis by simp
  qed
qed

theorem emit_stops_at_first_throw_witness:
  "map_of (callbacks (constructor\<lparr>callbacks := [(''update'', [1, 2, 3])]\<rparr>)) ''update'' = Some [1, 2, 3]
   \<and> list_all (\<lambda>cb. keeps_callbacks (acts \<lparr>acts = [ASet ''timestamp'' (Num (Fin 1))], throws = (cb = 2)\<rparr>))
        [1, 2, 3]
   \<and> (\<exists>w'. emit (\<lambda>cb eventType eventArgs. \<lparr>acts = [ASet ''timestamp'' (Num (Fin 1))], throws = (cb = 2)\<rparr>)
            ''update'' Null (constructor\<lparr>callbacks := [(''update'', [1, 2, 3])]\<rparr>)
          = Some (Some (Thrown 2), w')
        \<and> callback_calls (trace w') = [1, 2] \<and> stats w' = [])"
proof -
  let ?w = "constructor\<lparr>callbacks := [(''update'', [1, 2, 3])]\<rparr>"
  let ?cenv = "\<lambda>cb eventType eventArgs.
     \<lparr>acts = [ASet ''timestamp'' (Num (Fin 1))], throws = ((cb :: nat) = 2)\<rparr>"
  have reg: "map_of (callbacks ?w) ''update'' = Some [1, 2, 3]"
    by simp
  have quiet: "\<forall>cb\<in>set [1, 2, 3]. keeps_callbacks (acts (?cenv cb ''update'' Null))"
    by simp
  show ?thesis
    using reg emit_stops_at_first_throw [where cenv = ?cenv and eventType = "''update''"
        and eventArgs = Null and w = ?w and cbs = "[1, 2, 3]", OF reg quiet]
    by (simp add: attempted_def returns_def constructor_def)
qed

subsection \<open>Callbacks that register or remove callbacks during the emit\<close>

text \<open>
  The cases the statement above leaves out. When callback 1 removes itself while it runs,
  callback 2 moves to the index just visited and is not called in that emit, although
  nothing throws; \<^verbatim>\<open>emit\<close> returns and the counter is incremented.
\<close>

lemma off_during_emit_skips_next:
  "\<exists>w'. emit leaving_callback ''update'' Null (constructor\<lparr>callbacks := [(''update'', [1, 2])]\<rparr>)
          = Some (None, w')
       \<and> callback_calls (trace w') = [1] \<and> callbacks w' = [(''update'', [2])]
       \<and> stats w' = [(''loader-update'', 1)]"
  by (simp add: emit_def emit_loop.simps call_callback_def react_def constructor_def
      leaving_callback_def off_def stats_bump_def)

text \<open>
  A callback registered during the emit, for the event type being emitted, is called in
  the same emit.
\<close>

lemma on_during_emit_is_called:
  "\<exists>w'. emit inviting_callback ''update'' Null (constructor\<lparr>callbacks := [(''update'', [1, 2])]\<rparr>)
          = Some (None, w')
       \<and> callback_calls (trace w') = [1, 2, 3] \<and> callbacks w' = [(''update'', [1, 2, 3])]"
  by (simp add: emit_def emit_loop.simps call_callback_def react_def constructor_def
      inviting_callback_def on_def stats_bump_def)

text \<open>
  When every callback registers one more callback for the event type, the loop never
  reaches the end of the array: \<^verbatim>\<open>emit\<close> does not return.
\<close>

lemma breeding_loop:
  assumes run: "emit_loop cenv et ea i w = Some y"
  shows "\<not> (cenv = breeding_callback \<and> (\<exists>cbs. map_of (callbacks w) et = Some cbs \<and> i < length cbs))"
proof (rule emit_loop.raw_induct [where P = "\<lambda>cenv et ea i w y.
    \<not> (cenv = breeding_callback \<and> (\<exists>cbs. map_of (callbacks w) et = Some cbs \<and> i < length cbs))",
    OF _ run], goal_cases)
  case (1 loop cenv et ea i w y)
  show ?case
  proof
    assume a: "cenv = breeding_callback \<and> (\<exists>cbs. map_of (callbacks w) et = Some cbs \<and> i < length cbs)"
    then obtain cbs where reg: "map_of (callbacks w) et = Some cbs" and lt: "i < length cbs"
      by blast
    let ?w1 = "w\<lparr>trace := trace w @ [CallCallback (cbs ! i) et ea],
       callbacks := AList.update et (cbs @ [cbs ! i]) (callbacks w)\<rparr>"
    have cc: "call_callback cenv et ea (cbs ! i) w = (None, ?w1)"
      using a reg by (simp add: call_callback_def react_def breeding_callback_def on_def)
    from 1(2) reg lt cc have "loop cenv et ea (i + 1) ?w1 = Some y" by simp
    from 1(1) [OF this] have "\<not> (cenv = breeding_callback
        \<and> (\<exists>cbs. map_of (callbacks ?w1) et = Some cbs \<and> i + 1 < length cbs))" .
    moreover have "map_of (callbacks ?w1) et = Some (cbs @ [cbs ! i])"
      by (simp add: update_conv')
    ultimately show False using a lt by simp
  qed
qed

lemma registering_callbacks_never_return:
  "emit breeding_callback ''update'' Null (constructor\<lparr>callbacks := [(''update'', [1])]\<rparr>) = None"
proof -
  let ?w = "constructor\<lparr>callbacks := [(''update'', [1])]\<rparr>"
  have "emit_loop breeding_callback ''update'' Null 0 ?w = None"
  proof (cases "emit_loop breeding_callback ''update'' Null 0 ?w")
    case None
    then show ?thesis .
  next
    case (Some y)
    from breeding_loop [OF Some] show ?thesis by simp
  qed
  then show ?thesis by (simp add: emit_def)
qed

section \<open>Updating the stream settings\<close>

lemma state_set_attr:
  "state (set_attr key val w)
     = (if strict_neq (get key w) val then js_assign key val (state w) else state w)"
  by (simp add: set_attr_def Let_def requestAnimationFrame_def)

lemma js_member_assign_same:
  "key \<noteq> ''__proto__'' \<Longrightarrow> js_member (js_assign key val ps) key = val"
  by (simp add: js_member_def js_assign_def update_conv')

lemma js_member_assign_other:
  "key' \<noteq> key \<Longrightarrow> js_member (js_assign key val ps) key' = js_member ps key'"
  by (simp add: js_member_def js_assign_def update_conv')

lemma get_set_attr_same: "key \<noteq> ''__proto__'' \<Longrightarrow> get key (set_attr key val w) = val"
proof (cases "strict_neq (get key w) val")
  case True
  assume "key \<noteq> ''__proto__''"
  with True show ?thesis by (simp add: get_def state_set_attr js_member_assign_same)
next
  case False
  then have "get key w = val" by (simp add: strict_neq_def strict_eq_def)
  with False show ?thesis by (simp add: get_def state_set_attr)
qed

lemma get_set_attr_other: "key' \<noteq> key \<Longrightarrow> get key' (set_attr key val w) = get key' w"
  by (simp add: get_def state_set_attr js_member_assign_other)

lemma map_of_spread_rev: "map_of (spread target src) = map_of target ++ map_of (rev src)"
proof (induction src arbitrary: target)
  case Nil
  show ?case by simp
next
  case (Cons p src)
  obtain name val where p: "p = (name, val)" by (cases p)
  have "map_of (spread (AList.update name val target) src)
          = map_of (AList.update name val target) ++ map_of (rev src)"
    by (rule Cons.IH)
  also have "\<dots> = map_of target ++ map_of (rev src @ [(name, val)])"
    by (simp add: update_conv' fun_eq_iff map_add_def split: option.splits)
  finally show ?case using p by simp
qed

lemma map_of_rev_distinct: "distinct (map fst xs) \<Longrightarrow> map_of (rev xs) = map_of xs"
proof (induction xs)
  case Nil
  show ?case by simp
next
  case (Cons p xs)
  obtain k v where p: "p = (k, v)" by (cases p)
  from Cons.prems p have fresh: "map_of xs k = None" and d: "distinct (map fst xs)"
    by (simp_all add: map_of_eq_None_iff)
  from d have ih: "map_of (rev xs) = map_of xs" by (rule Cons.IH)
  have "map_of (rev (p # xs)) x = map_of (p # xs) x" for x
    using fresh p ih by (simp add: map_add_def split: option.splits)
  then show ?case by (simp add: fun_eq_iff)
qed

lemma map_of_spread:
  "distinct (map fst src) \<Longrightarrow> map_of (spread target src) = map_of target ++ map_of src"
  by (simp add: map_of_spread_rev map_of_rev_distinct)

lemma heap_set_attr: "heap (set_attr key val w) = heap w"
  by (simp add: set_attr_def Let_def requestAnimationFrame_def)

lemma next_ref_set_attr: "next_ref (set_attr key val w) = next_ref w"
  by (simp add: set_attr_def Let_def requestAnimationFrame_def)

lemma updateStreamSettings_get:
  "get ''streamSettings'' (updateStreamSettings settings w) = Ref (next_ref w)"
  by (simp add: updateStreamSettings_def alloc_def Let_def get_set_attr_same)

lemma updateStreamSettings_heap:
  "heap (updateStreamSettings settings w)
     = (heap w)(next_ref w \<mapsto>
         Plain (spread (spread [] (own_props w (get ''streamSettings'' w))) settings))"
  by (simp add: updateStreamSettings_def alloc_def Let_def heap_set_attr)

lemma updateStreamSettings_props:
  "own_props (updateStreamSettings settings w) (get ''streamSettings'' (updateStreamSettings settings w))
     = spread (spread [] (own_props w (get ''streamSettings'' w))) settings"
  by (simp add: updateStreamSettings_get updateStreamSettings_heap own_props_def)

lemma own_props_Undefined: "own_props w Undefined = []"
  by (simp add: own_props_def)

text \<open>
  Claim C8. \<^verbatim>\<open>updateStreamSettings(settings)\<close> stores the shallow merge of
  \<^verbatim>\<open>settings\<close> into the current \<^verbatim>\<open>streamSettings\<close>: afterwards the stored mapping has
  every key of \<^verbatim>\<open>settings\<close> with the new value and every other key of the prior mapping
  with its old value (the property lists of objects have distinct names). In particular,
  starting without stream settings, \<^verbatim>\<open>updateStreamSettings({a: 1})\<close> followed by
  \<^verbatim>\<open>updateStreamSettings({b: 2})\<close> stores \<^verbatim>\<open>{a: 1, b: 2}\<close>.
\<close>

theorem updateStreamSettings_merges:
  "(distinct (map fst settings) \<and> distinct (map fst (own_props w (get ''streamSettings'' w))) \<longrightarrow>
      map_of (own_props (updateStreamSettings settings w)
                (get ''streamSettings'' (updateStreamSettings settings w)))
        = map_of (own_props w (get ''streamSettings'' w)) ++ map_of settings)
   \<and> (get ''streamSettings'' w = Undefined \<longrightarrow>
      own_props (updateStreamSettings [(''b'', Num (Fin 2))] (updateStreamSettings [(''a'', Num (Fin 1))] w))
        (get ''streamSettings''
           (updateStreamSettings [(''b'', Num (Fin 2))] (updateStreamSettings [(''a'', Num (Fin 1))] w)))
        = [(''a'', Num (Fin 1)), (''b'', Num (Fin 2))])"
proof (intro conjI impI)
  assume "distinct (map fst settings) \<and> distinct (map fst (own_props w (get ''streamSettings'' w)))"
  then show "map_of (own_props (updateStreamSettings settings w)
                (get ''streamSettings'' (updateStreamSettings settings w)))
        = map_of (own_props w (get ''streamSettings'' w)) ++ map_of settings"
    by (simp add: updateStreamSettings_props map_of_spread)
next
  assume undef: "get ''streamSettings'' w = Undefined"
  let ?w1 = "updateStreamSettings [(''a'', Num (Fin 1))] w"
  have first: "own_props ?w1 (get ''streamSettings'' ?w1) = [(''a'', Num (Fin 1))]"
    using undef by (simp add: updateStreamSettings_props own_props_Undefined)
  show "own_props (updateStreamSettings [(''b'', Num (Fin 2))] ?w1)
          (get ''streamSettings'' (updateStreamSettings [(''b'', Num (Fin 2))] ?w1))
        = [(''a'', Num (Fin 1)), (''b'', Num (Fin 2))]"
    by (simp add: updateStreamSettings_props [of _ ?w1] first)
qed

theorem updateStreamSettings_merges_witness:
  "distinct (map fst [(''a'', Num (Fin 9)), (''b'', Num (Fin 2))])
   \<and> distinct (map fst (own_props
        (constructor\<lparr>state := [(''streamSettings'', Ref 0)],
           heap := [0 \<mapsto> Plain [(''a'', Num (Fin 1)), (''c'', Num (Fin 3))]], next_ref := 1\<rparr>)
        (get ''streamSettings''
          (constructor\<lparr>state := [(''streamSettings'', Ref 0)],
             heap := [0 \<mapsto> Plain [(''a'', Num (Fin 1)), (''c'', Num (Fin 3))]], next_ref := 1\<rparr>))))
   \<and> map_of (own_props
        (updateStreamSettings [(''a'', Num (Fin 9)), (''b'', Num (Fin 2))]
          (constructor\<lparr>state := [(''streamSettings'', Ref 0)],
             heap := [0 \<mapsto> Plain [(''a'', Num (Fin 1)), (''c'', Num (Fin 3))]], next_ref := 1\<rparr>))
        (get ''streamSettings''
          (updateStreamSettings [(''a'', Num (Fin 9)), (''b'', Num (Fin 2))]
            (constructor\<lparr>state := [(''streamSettings'', Ref 0)],
               heap := [0 \<mapsto> Plain [(''a'', Num (Fin 1)), (''c'', Num (Fin 3))]], next_ref := 1\<rparr>))))
     = [''a'' \<mapsto> Num (Fin 9), ''c'' \<mapsto> Num (Fin 3), ''b'' \<mapsto> Num (Fin 2)]
   \<and> get ''streamSettings'' constructor = Undefined
   \<and> own_props
        (updateStreamSettings [(''b'', Num (Fin 2))] (updateStreamSettings [(''a'', Num (Fin 1))] constructor))
        (get ''streamSettings''
          (updateStreamSettings [(''b'', Num (Fin 2))] (updateStreamSettings [(''a'', Num (Fin 1))] constructor)))
     = [(''a'', Num (Fin 1)), (''b'', Num (Fin 2))]"
proof -
  let ?w = "constructor\<lparr>state := [(''streamSettings'', Ref 0)],
             heap := [0 \<mapsto> Plain [(''a'', Num (Fin 1)), (''c'', Num (Fin 3))]], next_ref := 1\<rparr>"
  let ?s = "[(''a'', Num (Fin 9)), (''b'', Num (Fin 2))]"
  have d1: "distinct (map fst ?s)" by simp
  have old: "own_props ?w (get ''streamSettings'' ?w) = [(''a'', Num (Fin 1)), (''c'', Num (Fin 3))]"
    by (simp add: own_props_def get_def js_member_def)
  have d2: "distinct (map fst (own_props ?w (get ''streamSettings'' ?w)))"
    unfolding old by simp
  have u: "get ''streamSettings'' constructor = Undefined"
    by (simp add: get_def js_member_def inherited_def object_prototype_def constructor_def)
  have m: "map_of [(''a'', Num (Fin 1)), (''c'', Num (Fin 3))] ++ map_of ?s
      = [''a'' \<mapsto> Num (Fin 9), ''c'' \<mapsto> Num (Fin 3), ''b'' \<mapsto> Num (Fin 2)]"
    by (auto simp add: fun_eq_iff map_add_def)
  show ?thesis
    using d1 d2 u updateStreamSettings_merges [of ?s ?w] updateStreamSettings_merges [of "[]" constructor]
    unfolding old m by simp
qed

lemma unused_get: "unused w a \<Longrightarrow> get key w \<noteq> Ref a"
  by (auto simp add: unused_def get_def js_member_def list_all_iff
      split: option.splits dest: map_of_SomeD)

text \<open>
  Claim C9. Every call of \<^verbatim>\<open>updateStreamSettings(settings)\<close>, whatever \<^verbatim>\<open>settings\<close>
  holds (also nothing, or the values already stored), stores a newly allocated object:
  an object is created at an address where none was and to which no attribute referred,
  it holds the merged settings, no other object changes, and the reference to it is
  stored under \<^verbatim>\<open>streamSettings\<close> in place of a value that differs from it. So the
  generation counter goes up by exactly one, and a tick is pending afterwards, the one
  that was pending before or else a new one requested from the host. The allocation
  pointer of the heap is an address not in use.
\<close>

theorem updateStreamSettings_always_writes:
  assumes fresh: "unused w (next_ref w)"
  shows "get ''streamSettings'' (updateStreamSettings settings w) = Ref (next_ref w)
     \<and> strict_neq (get ''streamSettings'' w) (Ref (next_ref w))
     \<and> heap w (next_ref w) = None
     \<and> heap (updateStreamSettings settings w)
         = (heap w)(next_ref w \<mapsto>
             Plain (spread (spread [] (own_props w (get ''streamSettings'' w))) settings))
     \<and> next_ref (updateStreamSettings settings w) = next_ref w + 1
     \<and> version (updateStreamSettings settings w) = version w + 1
     \<and> handle_truthy (updateTimer (updateStreamSettings settings w))
     \<and> (if handle_truthy (updateTimer w)
        then updateTimer (updateStreamSettings settings w) = updateTimer w
           \<and> raf_queue (updateStreamSettings settings w) = raf_queue w
        else updateTimer (updateStreamSettings settings w) = Some (raf_last w + 1)
           \<and> raf_queue (updateStreamSettings settings w) = raf_queue w @ [raf_last w + 1])"
proof -
  from fresh have ne: "strict_neq (get ''streamSettings'' w) (Ref (next_ref w))"
    using unused_get [of w "next_ref w" "''streamSettings''"]
    by (auto simp add: strict_neq_def strict_eq_def)
  from fresh have none: "heap w (next_ref w) = None" by (simp add: unused_def)
  let ?ob = "Plain (spread (spread [] (own_props w (get ''streamSettings'' w))) settings)"
  let ?w1 = "snd (alloc ?ob w)"
  have g: "get ''streamSettings'' ?w1 = get ''streamSettings'' w"
    by (simp add: alloc_def get_def)
  have upd: "updateStreamSettings settings w = set_attr ''streamSettings'' (Ref (next_ref w)) ?w1"
    by (simp add: updateStreamSettings_def alloc_def Let_def)
  have nx: "next_ref (updateStreamSettings settings w) = next_ref w + 1"
    unfolding upd by (simp add: next_ref_set_attr alloc_def)
  have rest: "version (updateStreamSettings settings w) = version w + 1
     \<and> handle_truthy (updateTimer (updateStreamSettings settings w))
     \<and> (if handle_truthy (updateTimer w)
        then updateTimer (updateStreamSettings settings w) = updateTimer w
           \<and> raf_queue (updateStreamSettings settings w) = raf_queue w
        else updateTimer (updateStreamSettings settings w) = Some (raf_last w + 1)
           \<and> raf_queue (updateStreamSettings settings w) = raf_queue w @ [raf_last w + 1])"
    unfolding upd using ne g
    by (simp add: set_attr_def Let_def requestAnimationFrame_def alloc_def handle_truthy_def)
  show ?thesis
    using ne none nx rest updateStreamSettings_get [of settings w]
      updateStreamSettings_heap [of settings w]
    by simp
qed

theorem updateStreamSettings_always_writes_witness:
  "unused (constructor\<lparr>state := [(''streamSettings'', Ref 0)], version := 4,
             heap := [0 \<mapsto> Plain [(''a'', Num (Fin 1))]], next_ref := 1\<rparr>) 1
   \<and> get ''streamSettings''
        (updateStreamSettings []
          (constructor\<lparr>state := [(''streamSettings'', Ref 0)], version := 4,
             heap := [0 \<mapsto> Plain [(''a'', Num (Fin 1))]], next_ref := 1\<rparr>)) = Ref 1
   \<and> heap
        (updateStreamSettings []
          (constructor\<lparr>state := [(''streamSettings'', Ref 0)], version := 4,
             heap := [0 \<mapsto> Plain [(''a'', Num (Fin 1))]], next_ref := 1\<rparr>))
       = [0 \<mapsto> Plain [(''a'', Num (Fin 1))], 1 \<mapsto> Plain [(''a'', Num (Fin 1))]]
   \<and> version
        (updateStreamSettings []
          (constructor\<lparr>state := [(''streamSettings'', Ref 0)], version := 4,
             heap := [0 \<mapsto> Plain [(''a'', Num (Fin 1))]], next_ref := 1\<rparr>)) = 5
   \<and> updateTimer
        (updateStreamSettings []
          (constructor\<lparr>state := [(''streamSettings'', Ref 0)], version := 4,
             heap := [0 \<mapsto> Plain [(''a'', Num (Fin 1))]], next_ref := 1\<rparr>)) = Some 1
   \<and> raf_queue
        (updateStreamSettings []
          (constructor\<lparr>state := [(''streamSettings'', Ref 0)], version := 4,
             heap := [0 \<mapsto> Plain [(''a'', Num (Fin 1))]], next_ref := 1\<rparr>)) = [1]"
proof -
  let ?w = "constructor\<lparr>state := [(''streamSettings'', Ref 0)], version := 4,
             heap := [0 \<mapsto> Plain [(''a'', Num (Fin 1))]], next_ref := 1\<rparr>"
  have f: "unused ?w (next_ref ?w)" by (simp add: unused_def constructor_def)
  have old: "own_props ?w (get ''streamSettings'' ?w) = [(''a'', Num (Fin 1))]"
    by (simp add: own_props_def get_def js_member_def)
  show ?thesis
    using f updateStreamSettings_always_writes [OF f, of "[]"]
    unfolding old
    by (simp add: handle_truthy_def constructor_def)
qed

section \<open>Log bounds\<close>

lemma same_inputs_single: "same_inputs ps [v] \<Longrightarrow> ps = [v]"
  by (cases ps) (auto simp add: same_inputs_def strict_eq_def list_all2_Cons2)

lemma meta_of_heap:
  assumes "heap w' = heap w"
  shows "meta_of w' v = meta_of w v"
  by (simp only: meta_of_def assms)

lemma getLogStartTime_fn_heap:
  assumes "heap w' = heap w"
  shows "getLogStartTime_fn cfg md w' = getLogStartTime_fn cfg md w"
  by (simp only: getLogStartTime_fn_def meta_of_heap [OF assms])

lemma getLogEndTime_fn_heap:
  assumes "heap w' = heap w"
  shows "getLogEndTime_fn md w' = getLogEndTime_fn md w"
  by (simp only: getLogEndTime_fn_def meta_of_heap [OF assms])

lemma getLogStartTime_value:
  assumes "start_cache_valid cfg w"
  shows "fst (getLogStartTime cfg w) = Inr (getLogStartTime_fn cfg (getMetadata w) w)"
proof (cases "cached (sel_start w) [getMetadata w]")
  case None
  then show ?thesis by (simp add: getLogStartTime_def createSelector_def)
next
  case (Some out)
  then obtain prev where c: "sel_start w = Some (prev, out)" and s: "same_inputs prev [getMetadata w]"
    by (auto simp add: cached_def split: option.splits if_splits)
  from s have "prev = [getMetadata w]" by (rule same_inputs_single)
  with c assms have "out = getLogStartTime_fn cfg (getMetadata w) w"
    by (simp add: start_cache_valid_def)
  with Some show ?thesis by (simp add: getLogStartTime_def createSelector_def)
qed

lemma getLogEndTime_value:
  assumes "end_cache_valid w"
  shows "fst (getLogEndTime w) = Inr (getLogEndTime_fn (getMetadata w) w)"
proof (cases "cached (sel_end w) [getMetadata w]")
  case None
  then show ?thesis by (simp add: getLogEndTime_def createSelector_def)
next
  case (Some out)
  then obtain prev where c: "sel_end w = Some (prev, out)" and s: "same_inputs prev [getMetadata w]"
    by (auto simp add: cached_def split: option.splits if_splits)
  from s have "prev = [getMetadata w]" by (rule same_inputs_single)
  with c assms have "out = getLogEndTime_fn (getMetadata w) w"
    by (simp add: end_cache_valid_def)
  with Some show ?thesis by (simp add: getLogEndTime_def createSelector_def)
qed

lemma getLogStartTime_unfold:
  "getLogStartTime cfg w =
     (case cached (sel_start w) [getMetadata w] of
        Some out \<Rightarrow> (Inr out, w)
      | None \<Rightarrow>
          (Inr (getLogStartTime_fn cfg (getMetadata w) w),
           w\<lparr>sel_start := Some ([getMetadata w], getLogStartTime_fn cfg (getMetadata w) w)\<rparr>))"
  by (simp add: getLogStartTime_def createSelector_def split: option.splits)

lemma getLogEndTime_unfold:
  "getLogEndTime w =
     (case cached (sel_end w) [getMetadata w] of
        Some out \<Rightarrow> (Inr out, w)
      | None \<Rightarrow>
          (Inr (getLogEndTime_fn (getMetadata w) w),
           w\<lparr>sel_end := Some ([getMetadata w], getLogEndTime_fn (getMetadata w) w)\<rparr>))"
  by (simp add: getLogEndTime_def createSelector_def split: option.splits)

lemma getLogStartTime_total:
  obtains v c where "getLogStartTime cfg w = (Inr v, w\<lparr>sel_start := c\<rparr>)"
proof (cases "cached (sel_start w) [getMetadata w]")
  case None
  then have "getLogStartTime cfg w =
      (Inr (getLogStartTime_fn cfg (getMetadata w) w),
       w\<lparr>sel_start := Some ([getMetadata w], getLogStartTime_fn cfg (getMetadata w) w)\<rparr>)"
    by (simp add: getLogStartTime_unfold)
  then show ?thesis by (rule that)
next
  case (Some out)
  then have "getLogStartTime cfg w = (Inr out, w\<lparr>sel_start := sel_start w\<rparr>)"
    by (simp add: getLogStartTime_unfold)
  then show ?thesis by (rule that)
qed

lemma getLogEndTime_total:
  obtains v c where "getLogEndTime w = (Inr v, w\<lparr>sel_end := c\<rparr>)"
proof (cases "cached (sel_end w) [getMetadata w]")
  case None
  then have "getLogEndTime w =
      (Inr (getLogEndTime_fn (getMetadata w) w),
       w\<lparr>sel_end := Some ([getMetadata w], getLogEndTime_fn (getMetadata w) w)\<rparr>)"
    by (simp add: getLogEndTime_unfold)
  then show ?thesis by (rule that)
next
  case (Some out)
  then have "getLogEndTime w = (Inr out, w\<lparr>sel_end := sel_end w\<rparr>)"
    by (simp add: getLogEndTime_unfold)
  then show ?thesis by (rule that)
qed

lemma getLogEndTime_after_start:
  "fst (getLogEndTime (w\<lparr>sel_start := c\<rparr>)) = fst (getLogEndTime w)"
proof -
  have md: "getMetadata (w\<lparr>sel_start := c\<rparr>) = getMetadata w"
    by (simp add: getMetadata_def get_def)
  have fn: "getLogEndTime_fn md (w\<lparr>sel_start := c\<rparr>) = getLogEndTime_fn md w" for md
    by (rule getLogEndTime_fn_heap) simp
  show ?thesis
    by (cases "cached (sel_end w) [getMetadata w]")
       (simp_all add: getLogEndTime_unfold md fn)
qed

lemma with_metadata_getMetadata: "getMetadata (with_metadata s e) = Ref 0"
  by (simp add: getMetadata_def get_def js_member_def with_metadata_def)

lemma with_metadata_meta:
  "meta_of (with_metadata s e) (Ref 0)
     = Some \<lparr>start_time = Some (Fin s), end_time = Some (Fin e), meta_streams = Undefined\<rparr>"
  by (simp add: meta_of_def with_metadata_def)

lemma with_metadata_caches:
  "sel_start (with_metadata s e) = None" "sel_end (with_metadata s e) = None"
  by (simp_all add: with_metadata_def constructor_def)

lemma with_metadata_start:
  "s \<noteq> 0 \<Longrightarrow>
   fst (getLogStartTime \<lparr>TIME_WINDOW = Fin tw\<rparr> (with_metadata s e)) = Inr (Num (Fin (s + tw)))"
  by (simp add: getLogStartTime_unfold with_metadata_getMetadata getLogStartTime_fn_def
      with_metadata_meta cached_def with_metadata_caches)

lemma with_metadata_end:
  "fst (getLogEndTime (with_metadata s e)) = Inr (Num (Fin e))"
  by (simp add: getLogEndTime_unfold with_metadata_getMetadata getLogEndTime_fn_def
      with_metadata_meta num_field_def cached_def with_metadata_caches)

text \<open>
  For stored metadata whose \<^verbatim>\<open>start_time\<close> is a finite number other than zero and
  whose \<^verbatim>\<open>end_time\<close> is a finite number, and a finite \<^verbatim>\<open>TIME_WINDOW\<close>,
  \<^verbatim>\<open>getLogStartTime()\<close> returns \<^verbatim>\<open>start_time + TIME_WINDOW\<close> and \<^verbatim>\<open>getLogEndTime()\<close>
  returns \<^verbatim>\<open>end_time\<close>, when the two selectors compute their result or hold it in
  their cache.
\<close>

lemma log_bounds_nonzero_start:
  assumes "getMetadata w = Ref a" and "heap w a = Some (Meta m)"
    and "start_time m = Some (Fin s)" and "end_time m = Some (Fin e)"
    and "s \<noteq> 0" and "TIME_WINDOW cfg = Fin tw"
    and "start_cache_valid cfg w" and "end_cache_valid w"
  shows "fst (getLogStartTime cfg w) = Inr (Num (Fin (s + tw)))
       \<and> fst (getLogEndTime w) = Inr (Num (Fin e))"
proof -
  from assms have mo: "meta_of w (getMetadata w) = Some m" by (simp add: meta_of_def)
  from assms have tr: "truthy (getMetadata w)" by simp
  have st: "getLogStartTime_fn cfg (getMetadata w) w = Num (Fin (s + tw))"
    using mo tr assms(3,5,6) by (simp add: getLogStartTime_fn_def)
  have en: "getLogEndTime_fn (getMetadata w) w = Num (Fin e)"
    using mo tr assms(4) by (simp add: getLogEndTime_fn_def num_field_def)
  from assms(7) st have "fst (getLogStartTime cfg w) = Inr (Num (Fin (s + tw)))"
    by (simp add: getLogStartTime_value)
  moreover from assms(8) en have "fst (getLogEndTime w) = Inr (Num (Fin e))"
    by (simp add: getLogEndTime_value)
  ultimately show ?thesis by simp
qed

lemma log_bounds_example:
  "fst (getLogStartTime \<lparr>TIME_WINDOW = Fin 5\<rparr> (with_metadata 100 200)) = Inr (Num (Fin 105))
   \<and> fst (getLogEndTime (with_metadata 100 200)) = Inr (Num (Fin 200))"
  using with_metadata_start [of 100 5 200] with_metadata_end [of 100 200] by simp

text \<open>
  Claim C4 has \<^verbatim>\<open>getLogStartTime()\<close> return \<^verbatim>\<open>start_time + TIME_WINDOW\<close> for stored
  metadata whose \<^verbatim>\<open>start_time\<close> and \<^verbatim>\<open>end_time\<close> are finite numbers. Zero is such a
  number, and \<^verbatim>\<open>seek\<close> and \<^verbatim>\<open>_setMetadata\<close> take it for a time
  (\<^verbatim>\<open>Number.isFinite\<close>). The selector guards with \<^verbatim>\<open>metadata.start_time &&\<close>, which
  zero does not pass: with the metadata \<^verbatim>\<open>{start_time: 0, end_time: 200}\<close> and
  \<^verbatim>\<open>TIME_WINDOW = 5\<close>, \<^verbatim>\<open>getLogStartTime()\<close> returns 0 where the claim has 5; the
  end time is returned as claimed.
\<close>

theorem getLogStartTime_zero_start:
  "meta_of (with_metadata 0 200) (getMetadata (with_metadata 0 200))
     = Some \<lparr>start_time = Some (Fin 0), end_time = Some (Fin 200), meta_streams = Undefined\<rparr>
   \<and> isFinite (Num (Fin 0))
   \<and> fst (getLogStartTime \<lparr>TIME_WINDOW = Fin 5\<rparr> (with_metadata 0 200)) = Inr (Num (Fin 0))
   \<and> Num (Fin 0) \<noteq> Num (js_add (Fin 0) (Fin 5))
   \<and> fst (getLogEndTime (with_metadata 0 200)) = Inr (Num (Fin 200))"
  by (simp add: getLogStartTime_unfold with_metadata_getMetadata getLogStartTime_fn_def
      with_metadata_meta cached_def with_metadata_caches with_metadata_end)

section \<open>Seeking\<close>

lemma clamp_finite:
  "s \<le> e \<Longrightarrow> clamp (Fin t) (Fin s) (Fin e) = Fin (if t < s then s else if e < t then e else t)"
  by (simp add: clamp_def)

lemma seek_with_metadata:
  assumes md: "truthy (getMetadata w)"
    and st: "fst (getLogStartTime cfg w) = Inr startTime"
    and en: "fst (getLogEndTime w) = Inr endTime"
  shows "fst (seek cfg t w) = None"
    and "get ''timestamp'' (snd (seek cfg t w)) = Num (seek_target t startTime endTime)"
proof -
  obtain v c where s1: "getLogStartTime cfg w = (Inr v, w\<lparr>sel_start := c\<rparr>)"
    by (rule getLogStartTime_total)
  obtain v' c' where s2: "getLogEndTime (w\<lparr>sel_start := c\<rparr>) = (Inr v', w\<lparr>sel_start := c, sel_end := c'\<rparr>)"
    by (rule getLogEndTime_total)
  from s1 st have v: "v = startTime" by simp
  from s2 en have v': "v' = endTime"
    using getLogEndTime_after_start [where w = w and c = c] by simp
  have sk: "seek cfg t w =
      (None, set_attr ''timestamp'' (Num (seek_target t startTime endTime)) (w\<lparr>sel_start := c, sel_end := c'\<rparr>))"
    using md s1 s2 v v' by (simp add: seek_def)
  show "fst (seek cfg t w) = None" by (simp add: sk)
  show "get ''timestamp'' (snd (seek cfg t w)) = Num (seek_target t startTime endTime)"
    by (simp add: sk get_set_attr_same)
qed

lemma seek_without_metadata:
  assumes "\<not> truthy (getMetadata w)"
  shows "fst (seek cfg t w) = None" and "get ''timestamp'' (snd (seek cfg t w)) = Num t"
  using assms by (simp_all add: seek_def get_set_attr_same)

text \<open>
  Claim C2, as stated, puts no order on the two bounds. The metadata
  \<^verbatim>\<open>{start_time: 100, end_time: 102}\<close> with \<^verbatim>\<open>TIME_WINDOW = 5\<close> has the finite bounds
  \<open>s = 105\<close> and \<open>e = 102\<close>; for \<open>t = 103\<close>, which is above \<open>e\<close>, \<^verbatim>\<open>seek(t)\<close>
  stores 105 and not \<open>e\<close>.
\<close>

theorem seek_inverted_bounds_counterexample:
  "truthy (getMetadata (with_metadata 100 102))
   \<and> fst (getLogStartTime \<lparr>TIME_WINDOW = Fin 5\<rparr> (with_metadata 100 102)) = Inr (Num (Fin 105))
   \<and> fst (getLogEndTime (with_metadata 100 102)) = Inr (Num (Fin 102))
   \<and> (102::real) < 103
   \<and> get ''timestamp'' (snd (seek \<lparr>TIME_WINDOW = Fin 5\<rparr> (Fin 103) (with_metadata 100 102)))
       = Num (Fin 105)
   \<and> Num (Fin 105) \<noteq> Num (Fin 102)"
proof -
  have md: "truthy (getMetadata (with_metadata 100 102))"
    by (simp add: with_metadata_getMetadata)
  have st: "fst (getLogStartTime \<lparr>TIME_WINDOW = Fin 5\<rparr> (with_metadata 100 102)) = Inr (Num (Fin 105))"
    using with_metadata_start [of 100 5 102] by simp
  have en: "fst (getLogEndTime (with_metadata 100 102)) = Inr (Num (Fin 102))"
    by (rule with_metadata_end)
  have "get ''timestamp'' (snd (seek \<lparr>TIME_WINDOW = Fin 5\<rparr> (Fin 103) (with_metadata 100 102)))
      = Num (seek_target (Fin 103) (Num (Fin 105)) (Num (Fin 102)))"
    using md st en by (rule seek_with_metadata(2))
  then have "get ''timestamp'' (snd (seek \<lparr>TIME_WINDOW = Fin 5\<rparr> (Fin 103) (with_metadata 100 102)))
      = Num (Fin 105)"
    by (simp add: clamp_def)
  with md st en show ?thesis by simp
qed

lemma seek_target_not_finite:
  "\<not> (isFinite startTime \<and> isFinite endTime) \<Longrightarrow> seek_target t startTime endTime = t"
  by (induction t startTime endTime rule: seek_target.induct) simp_all

lemma with_open_metadata_getMetadata: "getMetadata (with_open_metadata s) = Ref 0"
  by (simp add: getMetadata_def get_def js_member_def with_open_metadata_def)

lemma with_open_metadata_meta:
  "meta_of (with_open_metadata s) (Ref 0)
     = Some \<lparr>start_time = Some (Fin s), end_time = None, meta_streams = Undefined\<rparr>"
  by (simp add: meta_of_def with_open_metadata_def)

lemma with_open_metadata_caches:
  "sel_start (with_open_metadata s) = None" "sel_end (with_open_metadata s) = None"
  by (simp_all add: with_open_metadata_def constructor_def)

lemma with_open_metadata_start:
  "s \<noteq> 0 \<Longrightarrow>
   fst (getLogStartTime \<lparr>TIME_WINDOW = Fin tw\<rparr> (with_open_metadata s)) = Inr (Num (Fin (s + tw)))"
  by (simp add: getLogStartTime_unfold with_open_metadata_getMetadata getLogStartTime_fn_def
      with_open_metadata_meta cached_def with_open_metadata_caches)

lemma with_open_metadata_end:
  "fst (getLogEndTime (with_open_metadata s)) = Inr Undefined"
  by (simp add: getLogEndTime_unfold with_open_metadata_getMetadata getLogEndTime_fn_def
      with_open_metadata_meta num_field_def cached_def with_open_metadata_caches)

text \<open>
  Claim C2, amended. For every finite \<open>t\<close>, \<^verbatim>\<open>seek(t)\<close> returns normally and stores a
  number under \<^verbatim>\<open>timestamp\<close>, and the two selectors of the log bounds return a value.
  If metadata is present and \<^verbatim>\<open>getLogStartTime()\<close> and \<^verbatim>\<open>getLogEndTime()\<close> are finite
  numbers \<open>s\<close> and \<open>e\<close>, the stored timestamp is \<open>max s (min e t)\<close>; with \<open>s \<le> e\<close>
  this is \<open>s\<close> when \<open>t < s\<close>, \<open>e\<close> when \<open>t > e\<close> and \<open>t\<close> otherwise. If metadata is
  present and one of the two bounds is not a finite number, or if metadata is absent
  (falsy), the stored timestamp is \<open>t\<close>.
\<close>

theorem seek_clamps_into_bounds:
  "(truthy (getMetadata w) \<and> fst (getLogStartTime cfg w) = Inr (Num (Fin s))
      \<and> fst (getLogEndTime w) = Inr (Num (Fin e)) \<and> s \<le> e \<longrightarrow>
      fst (seek cfg (Fin t) w) = None
      \<and> get ''timestamp'' (snd (seek cfg (Fin t) w))
          = Num (Fin (if t < s then s else if e < t then e else t)))
   \<and> (truthy (getMetadata w) \<and> fst (getLogStartTime cfg w) = Inr (Num (Fin s))
      \<and> fst (getLogEndTime w) = Inr (Num (Fin e)) \<longrightarrow>
      fst (seek cfg (Fin t) w) = None
      \<and> get ''timestamp'' (snd (seek cfg (Fin t) w)) = Num (Fin (max s (min e t))))
   \<and> (truthy (getMetadata w) \<and> fst (getLogStartTime cfg w) = Inr startTime
      \<and> fst (getLogEndTime w) = Inr endTime \<and> \<not> (isFinite startTime \<and> isFinite endTime) \<longrightarrow>
      fst (seek cfg (Fin t) w) = None
      \<and> get ''timestamp'' (snd (seek cfg (Fin t) w)) = Num (Fin t))
   \<and> (\<not> truthy (getMetadata w) \<longrightarrow>
      fst (seek cfg (Fin t) w) = None
      \<and> get ''timestamp'' (snd (seek cfg (Fin t) w)) = Num (Fin t))
   \<and> (\<exists>v. fst (getLogStartTime cfg w) = Inr v) \<and> (\<exists>v. fst (getLogEndTime w) = Inr v)
   \<and> fst (seek cfg (Fin t) w) = None
   \<and> (\<exists>n. get ''timestamp'' (snd (seek cfg (Fin t) w)) = Num n)"
proof -
  obtain v1 c1 where s1: "getLogStartTime cfg w = (Inr v1, w\<lparr>sel_start := c1\<rparr>)"
    by (rule getLogStartTime_total)
  obtain v2 c2 where s2: "getLogEndTime w = (Inr v2, w\<lparr>sel_end := c2\<rparr>)"
    by (rule getLogEndTime_total)
  from s1 have r1: "fst (getLogStartTime cfg w) = Inr v1" by simp
  from s2 have r2: "fst (getLogEndTime w) = Inr v2" by simp
  have present: "fst (seek cfg (Fin t) w) = None
      \<and> get ''timestamp'' (snd (seek cfg (Fin t) w)) = Num (seek_target (Fin t) v1 v2)"
    if "truthy (getMetadata w)"
    using seek_with_metadata [OF that r1 r2, of "Fin t"] by simp
  have absent: "fst (seek cfg (Fin t) w) = None
      \<and> get ''timestamp'' (snd (seek cfg (Fin t) w)) = Num (Fin t)"
    if "\<not> truthy (getMetadata w)"
    using seek_without_metadata [OF that, of cfg "Fin t"] by simp
  have a: "truthy (getMetadata w) \<and> fst (getLogStartTime cfg w) = Inr (Num (Fin s))
      \<and> fst (getLogEndTime w) = Inr (Num (Fin e)) \<and> s \<le> e \<longrightarrow>
      fst (seek cfg (Fin t) w) = None
      \<and> get ''timestamp'' (snd (seek cfg (Fin t) w))
          = Num (Fin (if t < s then s else if e < t then e else t))"
    using present r1 r2 by (auto simp add: clamp_finite)
  have b: "truthy (getMetadata w) \<and> fst (getLogStartTime cfg w) = Inr (Num (Fin s))
      \<and> fst (getLogEndTime w) = Inr (Num (Fin e)) \<longrightarrow>
      fst (seek cfg (Fin t) w) = None
      \<and> get ''timestamp'' (snd (seek cfg (Fin t) w)) = Num (Fin (max s (min e t)))"
    using present r1 r2 by (auto simp add: clamp_def)
  have c: "truthy (getMetadata w) \<and> fst (getLogStartTime cfg w) = Inr startTime
      \<and> fst (getLogEndTime w) = Inr endTime \<and> \<not> (isFinite startTime \<and> isFinite endTime) \<longrightarrow>
      fst (seek cfg (Fin t) w) = None
      \<and> get ''timestamp'' (snd (seek cfg (Fin t) w)) = Num (Fin t)"
  proof
    assume h: "truthy (getMetadata w) \<and> fst (getLogStartTime cfg w) = Inr startTime
      \<and> fst (getLogEndTime w) = Inr endTime \<and> \<not> (isFinite startTime \<and> isFinite endTime)"
    with r1 r2 have "v1 = startTime" "v2 = endTime" by simp_all
    moreover from h have "seek_target (Fin t) startTime endTime = Fin t"
      by (intro seek_target_not_finite) simp
    ultimately show "fst (seek cfg (Fin t) w) = None
      \<and> get ''timestamp'' (snd (seek cfg (Fin t) w)) = Num (Fin t)"
      using present h by simp
  qed
  have d: "\<not> truthy (getMetadata w) \<longrightarrow>
      fst (seek cfg (Fin t) w) = None
      \<and> get ''timestamp'' (snd (seek cfg (Fin t) w)) = Num (Fin t)"
    using absent by simp
  have e: "fst (seek cfg (Fin t) w) = None
      \<and> (\<exists>n. get ''timestamp'' (snd (seek cfg (Fin t) w)) = Num n)"
    using present absent by (cases "truthy (getMetadata w)") auto
  from a b c d e r1 r2 show ?thesis by blast
qed

theorem seek_clamps_into_bounds_witness:
  "truthy (getMetadata (with_metadata 100 200))
   \<and> fst (getLogStartTime \<lparr>TIME_WINDOW = Fin 5\<rparr> (with_metadata 100 200)) = Inr (Num (Fin 105))
   \<and> fst (getLogEndTime (with_metadata 100 200)) = Inr (Num (Fin 200))
   \<and> (105::real) \<le> 200
   \<and> get ''timestamp'' (snd (seek \<lparr>TIME_WINDOW = Fin 5\<rparr> (Fin 50) (with_metadata 100 200)))
       = Num (Fin 105)
   \<and> get ''timestamp'' (snd (seek \<lparr>TIME_WINDOW = Fin 5\<rparr> (Fin 250) (with_metadata 100 200)))
       = Num (Fin 200)
   \<and> get ''timestamp'' (snd (seek \<lparr>TIME_WINDOW = Fin 5\<rparr> (Fin 150) (with_metadata 100 200)))
       = Num (Fin 150)
   \<and> truthy (getMetadata (with_metadata 100 102))
   \<and> fst (getLogStartTime \<lparr>TIME_WINDOW = Fin 5\<rparr> (with_metadata 100 102)) = Inr (Num (Fin 105))
   \<and> fst (getLogEndTime (with_metadata 100 102)) = Inr (Num (Fin 102))
   \<and> get ''timestamp'' (snd (seek \<lparr>TIME_WINDOW = Fin 5\<rparr> (Fin 101) (with_metadata 100 102)))
       = Num (Fin 105)
   \<and> truthy (getMetadata (with_open_metadata 100))
   \<and> fst (getLogStartTime \<lparr>TIME_WINDOW = Fin 5\<rparr> (with_open_metadata 100)) = Inr (Num (Fin 105))
   \<and> fst (getLogEndTime (with_open_metadata 100)) = Inr Undefined
   \<and> \<not> (isFinite (Num (Fin 105)) \<and> isFinite Undefined)
   \<and> get ''timestamp'' (snd (seek \<lparr>TIME_WINDOW = Fin 5\<rparr> (Fin 50) (with_open_metadata 100)))
       = Num (Fin 50)
   \<and> \<not> truthy (getMetadata constructor)
   \<and> get ''timestamp'' (snd (seek \<lparr>TIME_WINDOW = Fin 5\<rparr> (Fin 7) constructor)) = Num (Fin 7)"
proof -
  let ?cfg = "\<lparr>TIME_WINDOW = Fin 5\<rparr>"
  have md: "truthy (getMetadata (with_metadata 100 200))"
    by (simp add: with_metadata_getMetadata)
  have st: "fst (getLogStartTime ?cfg (with_metadata 100 200)) = Inr (Num (Fin 105))"
    using with_metadata_start [of 100 5 200] by simp
  have en: "fst (getLogEndTime (with_metadata 100 200)) = Inr (Num (Fin 200))"
    by (rule with_metadata_end)
  have md': "truthy (getMetadata (with_metadata 100 102))"
    by (simp add: with_metadata_getMetadata)
  have st': "fst (getLogStartTime ?cfg (with_metadata 100 102)) = Inr (Num (Fin 105))"
    using with_metadata_start [of 100 5 102] by simp
  have en': "fst (getLogEndTime (with_metadata 100 102)) = Inr (Num (Fin 102))"
    by (rule with_metadata_end)
  have mo: "truthy (getMetadata (with_open_metadata 100))"
    by (simp add: with_open_metadata_getMetadata)
  have so: "fst (getLogStartTime ?cfg (with_open_metadata 100)) = Inr (Num (Fin 105))"
    using with_open_metadata_start [of 100 5] by simp
  have eo: "fst (getLogEndTime (with_open_metadata 100)) = Inr Undefined"
    by (rule with_open_metadata_end)
  have no: "\<not> truthy (getMetadata constructor)"
    by (simp add: getMetadata_def get_def js_member_def inherited_def object_prototype_def
        constructor_def)
  have 1: "get ''timestamp'' (snd (seek ?cfg (Fin 50) (with_metadata 100 200))) = Num (Fin 105)"
    using md st en seek_clamps_into_bounds [of "with_metadata 100 200" ?cfg 105 200 50]
    by simp
  have 2: "get ''timestamp'' (snd (seek ?cfg (Fin 250) (with_metadata 100 200))) = Num (Fin 200)"
    using md st en seek_clamps_into_bounds [of "with_metadata 100 200" ?cfg 105 200 250]
    by simp
  have 3: "get ''timestamp'' (snd (seek ?cfg (Fin 150) (with_metadata 100 200))) = Num (Fin 150)"
    using md st en seek_clamps_into_bounds [of "with_metadata 100 200" ?cfg 105 200 150]
    by simp
  have 4: "get ''timestamp'' (snd (seek ?cfg (Fin 101) (with_metadata 100 102))) = Num (Fin 105)"
    using md' st' en' seek_clamps_into_bounds [of "with_metadata 100 102" ?cfg 105 102 101]
    by simp
  have 5: "get ''timestamp'' (snd (seek ?cfg (Fin 50) (with_open_metadata 100))) = Num (Fin 50)"
    using mo so eo
      seek_clamps_into_bounds [of "with_open_metadata 100" ?cfg 0 0 50 "Num (Fin 105)" Undefined]
    by simp
  have 6: "get ''timestamp'' (snd (seek ?cfg (Fin 7) constructor)) = Num (Fin 7)"
    using no seek_clamps_into_bounds [of constructor ?cfg 0 0 7 Undefined Undefined]
    by simp
  from md st en md' st' en' mo so eo no 1 2 3 4 5 6 show ?thesis by simp
qed

section \<open>Visible streams\<close>

lemma same_inputs_pair: "same_inputs ps [u, v] \<Longrightarrow> ps = [u, v]"
  by (auto simp add: same_inputs_def strict_eq_def list_all2_Cons2)

lemma map_of_js_assign:
  "map_of (js_assign n v ps) name
     = (if n = name \<and> (n \<noteq> ''__proto__'' \<or> map_of ps n \<noteq> None) then Some v else map_of ps name)"
  by (auto simp add: js_assign_def update_conv')

lemma streams_loop_lookup:
  "map_of (streams_loop w ss st names acc) name
     = (if name \<in> set names \<and> truthy (js_prop w ss name)
           \<and> (name \<noteq> ''__proto__'' \<or> map_of acc name \<noteq> None)
        then Some (js_prop w st name)
        else map_of acc name)"
proof (induction names arbitrary: acc)
  case Nil
  show ?case by simp
next
  case (Cons n names)
  show ?case
  proof (cases "truthy (js_prop w ss n)")
    case False
    then have "streams_loop w ss st (n # names) acc = streams_loop w ss st names acc" by simp
    moreover from False have "name = n \<Longrightarrow> \<not> truthy (js_prop w ss name)" by simp
    ultimately show ?thesis using Cons.IH [of acc] by auto
  next
    case True
    define acc' where "acc' = js_assign n (js_prop w st n) acc"
    from True have unf: "streams_loop w ss st (n # names) acc = streams_loop w ss st names acc'"
      by (simp add: acc'_def)
    note ih = Cons.IH [of acc']
    show ?thesis
    proof (cases "name = n")
      case False
      then have "map_of acc' name = map_of acc name" by (simp add: acc'_def map_of_js_assign)
      with False ih show ?thesis unfolding unf by simp
    next
      case same: True
      show ?thesis
      proof (cases "n \<noteq> ''__proto__'' \<or> map_of acc n \<noteq> None")
        case True
        then have "map_of acc' n = Some (js_prop w st n)"
          unfolding acc'_def map_of_js_assign by simp
        with same True \<open>truthy (js_prop w ss n)\<close> ih show ?thesis unfolding unf by simp
      next
        case False
        then have "map_of acc' n = None"
          unfolding acc'_def map_of_js_assign by simp
        with same False ih show ?thesis unfolding unf by simp
      qed
    qed
  qed
qed

lemma js_keys_own_props: "js_keys w v = map fst (own_props w v)"
  by (simp add: js_keys_def own_props_def split: jsval.splits option.splits obj.splits)

lemma visible_lookup:
  "map_of (streams_loop w ss st (js_keys w st) []) name
     = (if name \<noteq> ''__proto__'' \<and> truthy (js_prop w ss name)
        then map_of (own_props w st) name else None)"
proof (cases "map_of (own_props w st) name")
  case None
  then have "name \<notin> set (js_keys w st)"
    by (simp add: js_keys_own_props map_of_eq_None_iff)
  with None show ?thesis by (simp add: streams_loop_lookup)
next
  case (Some x)
  then have "name \<in> set (js_keys w st)"
    by (metis js_keys_own_props map_of_eq_None_iff option.distinct(1) set_map)
  moreover from Some have "js_prop w st name = x" by (simp add: js_prop_def js_member_def)
  ultimately show ?thesis using Some by (simp add: streams_loop_lookup)
qed

lemma getStreams_unfold:
  "getStreams w =
     (case cached (sel_streams w) [getStreamSettings w, getStreams_input w] of
        Some out \<Rightarrow> (Inr out, w)
      | None \<Rightarrow>
          (case getStreams_fn (getStreamSettings w) (getStreams_input w) w of
             (v, w1) \<Rightarrow> (Inr v, w1\<lparr>sel_streams := Some ([getStreamSettings w, getStreams_input w], v)\<rparr>)))"
  by (simp add: getStreams_def createSelector_def split: option.splits prod.splits)

lemma own_props_alloc:
  assumes "v \<noteq> Ref (next_ref w)"
  shows "own_props (w\<lparr>heap := (heap w)(next_ref w \<mapsto> ob), next_ref := n, sel_streams := c\<rparr>) v
           = own_props w v"
  using assms by (cases v) (simp_all add: own_props_def)

lemma getStreams_present:
  assumes valid: "streams_cache_valid w" and fresh: "unused w (next_ref w)"
    and ss: "truthy (getStreamSettings w)" and st: "truthy (getStreams_input w)"
  obtains r where "fst (getStreams w) = Inr (Ref r)"
    and "heap (snd (getStreams w)) r
           = Some (Plain (streams_loop w (getStreamSettings w) (getStreams_input w)
                            (js_keys w (getStreams_input w)) []))"
    and "own_props (snd (getStreams w)) (getStreams_input w) = own_props w (getStreams_input w)"
    and "state (snd (getStreams w)) = state w"
proof (cases "cached (sel_streams w) [getStreamSettings w, getStreams_input w]")
  case None
  let ?res = "streams_loop w (getStreamSettings w) (getStreams_input w) (js_keys w (getStreams_input w)) []"
  have ne: "getStreams_input w \<noteq> Ref (next_ref w)"
    using fresh by (simp add: getStreams_input_def unused_get)
  have g: "getStreams w =
      (Inr (Ref (next_ref w)),
       w\<lparr>heap := (heap w)(next_ref w \<mapsto> Plain ?res), next_ref := next_ref w + 1,
         sel_streams := Some ([getStreamSettings w, getStreams_input w], Ref (next_ref w))\<rparr>)"
    using None ss st by (simp add: getStreams_unfold getStreams_fn_def alloc_def Let_def)
  show ?thesis
  proof (rule that [of "next_ref w"])
    show "fst (getStreams w) = Inr (Ref (next_ref w))" by (simp add: g)
    show "heap (snd (getStreams w)) (next_ref w) = Some (Plain ?res)" by (simp add: g)
    show "own_props (snd (getStreams w)) (getStreams_input w) = own_props w (getStreams_input w)"
      unfolding g snd_conv using ne by (rule own_props_alloc)
    show "state (snd (getStreams w)) = state w" by (simp add: g)
  qed
next
  case (Some out)
  then obtain prev where c: "sel_streams w = Some (prev, out)"
    and s: "same_inputs prev [getStreamSettings w, getStreams_input w]"
    by (auto simp add: cached_def split: option.splits if_splits)
  from s have prev: "prev = [getStreamSettings w, getStreams_input w]" by (rule same_inputs_pair)
  from valid c prev ss st obtain r where out: "out = Ref r"
    and h: "heap w r = Some (Plain (streams_loop w (getStreamSettings w) (getStreams_input w)
                            (js_keys w (getStreams_input w)) []))"
    by (auto simp add: streams_cache_valid_def split: jsval.splits)
  have g: "getStreams w = (Inr (Ref r), w)"
    using Some out by (simp add: getStreams_unfold)
  show ?thesis
    by (rule that [of r]) (simp_all add: g h)
qed

lemma getStreams_absent:
  assumes valid: "streams_cache_valid w"
    and no: "\<not> truthy (getStreamSettings w) \<or> \<not> truthy (getStreams_input w)"
  shows "fst (getStreams w) = Inr (getStreams_input w)"
proof (cases "cached (sel_streams w) [getStreamSettings w, getStreams_input w]")
  case None
  with no show ?thesis by (auto simp add: getStreams_unfold getStreams_fn_def)
next
  case (Some out)
  then obtain prev where c: "sel_streams w = Some (prev, out)"
    and s: "same_inputs prev [getStreamSettings w, getStreams_input w]"
    by (auto simp add: cached_def split: option.splits if_splits)
  from s have prev: "prev = [getStreamSettings w, getStreams_input w]" by (rule same_inputs_pair)
  from valid c prev no have "out = getStreams_input w"
    by (auto simp add: streams_cache_valid_def)
  with Some show ?thesis by (simp add: getStreams_unfold)
qed

lemma getStreams_shape:
  obtains v where "fst (getStreams w) = Inr v"
    and "trace (snd (getStreams w)) = trace w"
    and "\<And>a. a \<noteq> next_ref w \<Longrightarrow> heap (snd (getStreams w)) a = heap w a"
proof (cases "cached (sel_streams w) [getStreamSettings w, getStreams_input w]")
  case None
  show ?thesis
  proof (cases "\<not> truthy (getStreamSettings w) \<or> \<not> truthy (getStreams_input w)")
    case True
    with None have "getStreams w = (Inr (getStreams_input w),
        w\<lparr>sel_streams := Some ([getStreamSettings w, getStreams_input w], getStreams_input w)\<rparr>)"
      by (auto simp add: getStreams_unfold getStreams_fn_def)
    then show ?thesis by (intro that [of "getStreams_input w"]) simp_all
  next
    case False
    with None have "getStreams w = (Inr (Ref (next_ref w)),
        w\<lparr>heap := (heap w)(next_ref w \<mapsto>
             Plain (streams_loop w (getStreamSettings w) (getStreams_input w)
                      (js_keys w (getStreams_input w)) [])),
          next_ref := next_ref w + 1,
          sel_streams := Some ([getStreamSettings w, getStreams_input w], Ref (next_ref w))\<rparr>)"
      by (simp add: getStreams_unfold getStreams_fn_def alloc_def Let_def)
    then show ?thesis by (intro that [of "Ref (next_ref w)"]) simp_all
  qed
next
  case (Some out)
  then have "getStreams w = (Inr out, w)" by (simp add: getStreams_unfold)
  then show ?thesis by (intro that [of out]) simp_all
qed

lemma getStreams_returns: "\<exists>v. fst (getStreams w) = Inr v"
  by (rule getStreams_shape [of w]) blast

lemma getStreams_trace: "trace (snd (getStreams w)) = trace w"
  by (rule getStreams_shape [of w]) blast

lemma getStreams_heap: "a \<noteq> next_ref w \<Longrightarrow> heap (snd (getStreams w)) a = heap w a"
  by (rule getStreams_shape [of w]) blast

lemma with_inherited_inputs:
  "getStreamSettings with_inherited = Ref 1" "getStreams_input with_inherited = Ref 0"
  "sel_streams with_inherited = None" "next_ref with_inherited = 2"
  by (simp_all add: getStreamSettings_def getStreams_input_def get_def js_member_def
      with_inherited_def constructor_def)

text \<open>
  Claim C10, as stated, has \<^verbatim>\<open>getStreams()\<close> keep exactly the streams whose value in
  \<^verbatim>\<open>streamSettings\<close> is truthy, and leave out those that are absent from
  \<^verbatim>\<open>streamSettings\<close>. With the streams \<^verbatim>\<open>/a\<close>, \<^verbatim>\<open>constructor\<close> and \<^verbatim>\<open>__proto__\<close>
  and the settings \<^verbatim>\<open>{'/a': true}\<close>, the result holds \<^verbatim>\<open>/a\<close> and \<^verbatim>\<open>constructor\<close>:
  the stream \<^verbatim>\<open>constructor\<close> is absent from the settings and is kept, since
  \<^verbatim>\<open>streamSettings['constructor']\<close> is the function inherited from
  \<^verbatim>\<open>Object.prototype\<close>; the stream \<^verbatim>\<open>__proto__\<close>, whose value in the settings is
  truthy in the same way, is not an entry of the result, since the assignment
  \<^verbatim>\<open>result['__proto__'] = 3\<close> adds no property.
\<close>

theorem inherited_setting_counterexample:
  "getStreams_input with_inherited = Ref 0
   \<and> heap with_inherited 0
       = Some (Plain [(''/a'', Num (Fin 1)), (''constructor'', Num (Fin 2)), (''__proto__'', Num (Fin 3))])
   \<and> getStreamSettings with_inherited = Ref 1
   \<and> heap with_inherited 1 = Some (Plain [(''/a'', Bool True)])
   \<and> map_of [(''/a'', Bool True)] ''constructor'' = None
   \<and> truthy (js_prop with_inherited (Ref 1) ''__proto__'')
   \<and> fst (getStreams with_inherited) = Inr (Ref 2)
   \<and> heap (snd (getStreams with_inherited)) 2
       = Some (Plain [(''/a'', Num (Fin 1)), (''constructor'', Num (Fin 2))])"
proof -
  have pp: "truthy (js_prop with_inherited (Ref 1) ''__proto__'')"
    by (simp add: js_prop_def js_member_def inherited_def object_prototype_def
        own_props_def with_inherited_def)
  have loop: "streams_loop with_inherited (Ref 1) (Ref 0) (js_keys with_inherited (Ref 0)) []
      = [(''/a'', Num (Fin 1)), (''constructor'', Num (Fin 2))]"
    by (simp add: js_keys_def js_prop_def js_member_def inherited_def object_prototype_def
        own_props_def js_assign_def with_inherited_def)
  have g: "getStreams with_inherited
      = (Inr (Ref 2),
         with_inherited\<lparr>heap := (heap with_inherited)(2 \<mapsto>
              Plain [(''/a'', Num (Fin 1)), (''constructor'', Num (Fin 2))]),
            next_ref := 3, sel_streams := Some ([Ref 1, Ref 0], Ref 2)\<rparr>)"
    using loop
    by (simp add: getStreams_unfold with_inherited_inputs cached_def getStreams_fn_def
        alloc_def Let_def)
  have h1: "heap with_inherited 1 = Some (Plain [(''/a'', Bool True)])"
    and h0: "heap with_inherited 0
       = Some (Plain [(''/a'', Num (Fin 1)), (''constructor'', Num (Fin 2)), (''__proto__'', Num (Fin 3))])"
    by (simp_all add: with_inherited_def)
  show ?thesis
    using pp h1 h0 by (simp add: g with_inherited_inputs(1,2))
qed

text \<open>
  Claim C10, amended. When the attributes \<^verbatim>\<open>streamSettings\<close> and \<^verbatim>\<open>streams\<close> both
  hold a mapping, and no stream is named \<^verbatim>\<open>__proto__\<close>, \<^verbatim>\<open>getStreams()\<close> returns a
  mapping object whose entries are exactly the entries of \<^verbatim>\<open>streams\<close> for which
  \<^verbatim>\<open>streamSettings[name]\<close> is truthy, each with the very value it has in \<^verbatim>\<open>streams\<close>.
  The lookup \<^verbatim>\<open>streamSettings[name]\<close> yields the setting of the stream, and for a
  stream without a setting the member of that name inherited from
  \<^verbatim>\<open>Object.prototype\<close>, if there is one (it is truthy), and \<^verbatim>\<open>undefined\<close> otherwise:
  a stream whose setting is falsy, or that has no setting and is not named like a member
  of \<^verbatim>\<open>Object.prototype\<close>, is left out. The \<^verbatim>\<open>streams\<close> attribute and its object stay
  as they are. When either attribute is absent (falsy), \<^verbatim>\<open>streams\<close> is returned as it
  is. This holds when the selector computes its result or holds it in a valid cache,
  which is so as long as the objects stored are not modified afterwards; the allocation
  pointer of the heap is an address not in use.
\<close>

theorem getStreams_filters_by_settings:
  assumes valid: "streams_cache_valid w" and fresh: "unused w (next_ref w)"
  shows "(getStreamSettings w = Ref a \<and> heap w a = Some (Plain settings)
          \<and> getStreams_input w = Ref b \<and> heap w b = Some (Plain strms)
          \<and> map_of strms ''__proto__'' = None \<longrightarrow>
           (\<exists>r ps. fst (getStreams w) = Inr (Ref r)
              \<and> heap (snd (getStreams w)) r = Some (Plain ps)
              \<and> (\<forall>name. map_of ps name
                    = (if truthy (js_member settings name) then map_of strms name else None))
              \<and> (\<forall>name. \<not> inherited name \<longrightarrow>
                    map_of ps name
                      = (case map_of settings name of
                           None \<Rightarrow> None
                         | Some v \<Rightarrow> if truthy v then map_of strms name else None)))
           \<and> get ''streams'' (snd (getStreams w)) = get ''streams'' w
           \<and> heap (snd (getStreams w)) b = Some (Plain strms))
       \<and> (\<not> truthy (getStreamSettings w) \<or> \<not> truthy (getStreams_input w) \<longrightarrow>
           fst (getStreams w) = Inr (getStreams_input w))"
proof (intro conjI impI)
  assume p: "getStreamSettings w = Ref a \<and> heap w a = Some (Plain settings)
          \<and> getStreams_input w = Ref b \<and> heap w b = Some (Plain strms)
          \<and> map_of strms ''__proto__'' = None"
  then have ss: "truthy (getStreamSettings w)" and st: "truthy (getStreams_input w)" by simp_all
  from p have os: "own_props w (getStreams_input w) = strms"
    and pr: "js_prop w (getStreamSettings w) name = js_member settings name" for name
    by (simp_all add: own_props_def js_prop_def)
  obtain r where r: "fst (getStreams w) = Inr (Ref r)"
    and h: "heap (snd (getStreams w)) r
           = Some (Plain (streams_loop w (getStreamSettings w) (getStreams_input w)
                            (js_keys w (getStreams_input w)) []))"
    and s: "state (snd (getStreams w)) = state w"
    using getStreams_present [OF valid fresh ss st] by blast
  let ?ps = "streams_loop w (getStreamSettings w) (getStreams_input w)
               (js_keys w (getStreams_input w)) []"
  from p have np: "map_of strms ''__proto__'' = None" by simp
  have m0: "map_of ?ps name
      = (if name \<noteq> ''__proto__'' \<and> truthy (js_member settings name)
         then map_of strms name else None)" for name
    by (simp add: visible_lookup os pr)
  have m: "map_of ?ps name
      = (if truthy (js_member settings name) then map_of strms name else None)" for name
    using m0 [of name] np by (cases "name = ''__proto__''") simp_all
  have m': "map_of ?ps name
      = (case map_of settings name of
           None \<Rightarrow> None
         | Some v \<Rightarrow> if truthy v then map_of strms name else None)" if "\<not> inherited name" for name
    using that by (simp add: m js_member_def split: option.splits)
  from r h m m' show "\<exists>r ps. fst (getStreams w) = Inr (Ref r)
              \<and> heap (snd (getStreams w)) r = Some (Plain ps)
              \<and> (\<forall>name. map_of ps name
                    = (if truthy (js_member settings name) then map_of strms name else None))
              \<and> (\<forall>name. \<not> inherited name \<longrightarrow>
                    map_of ps name
                      = (case map_of settings name of
                           None \<Rightarrow> None
                         | Some v \<Rightarrow> if truthy v then map_of strms name else None))"
    by blast
  from s show "get ''streams'' (snd (getStreams w)) = get ''streams'' w"
    by (simp add: get_def)
  from fresh p have "b \<noteq> next_ref w" by (auto simp add: unused_def)
  with p show "heap (snd (getStreams w)) b = Some (Plain strms)"
    by (simp add: getStreams_heap)
next
  assume "\<not> truthy (getStreamSettings w) \<or> \<not> truthy (getStreams_input w)"
  with valid show "fst (getStreams w) = Inr (getStreams_input w)"
    by (rule getStreams_absent)
qed

theorem getStreams_filters_by_settings_witness:
  "streams_cache_valid with_streams \<and> unused with_streams (next_ref with_streams)
   \<and> getStreamSettings with_streams = Ref 1
   \<and> heap with_streams 1 = Some (Plain [(''/a'', Bool True), (''/b'', Bool False)])
   \<and> getStreams_input with_streams = Ref 0
   \<and> heap with_streams 0
       = Some (Plain [(''/a'', Num (Fin 1)), (''/b'', Num (Fin 2)), (''/c'', Num (Fin 3))])
   \<and> map_of [(''/a'', Num (Fin 1)), (''/b'', Num (Fin 2)), (''/c'', Num (Fin 3))] ''__proto__'' = None
   \<and> \<not> inherited ''/c''
   \<and> (\<exists>r ps. fst (getStreams with_streams) = Inr (Ref r)
          \<and> heap (snd (getStreams with_streams)) r = Some (Plain ps)
          \<and> map_of ps ''/a'' = Some (Num (Fin 1)) \<and> map_of ps ''/b'' = None \<and> map_of ps ''/c'' = None)
   \<and> heap (snd (getStreams with_streams)) 0
       = Some (Plain [(''/a'', Num (Fin 1)), (''/b'', Num (Fin 2)), (''/c'', Num (Fin 3))])
   \<and> streams_cache_valid constructor \<and> unused constructor (next_ref constructor)
   \<and> \<not> truthy (getStreams_input constructor)
   \<and> fst (getStreams constructor) = Inr Undefined"
proof -
  let ?settings = "[(''/a'', Bool True), (''/b'', Bool False)]"
  let ?strms = "[(''/a'', Num (Fin 1)), (''/b'', Num (Fin 2)), (''/c'', Num (Fin 3))]"
  have v: "streams_cache_valid with_streams"
    by (simp add: streams_cache_valid_def with_streams_def constructor_def)
  have f: "unused with_streams (next_ref with_streams)"
    by (simp add: unused_def with_streams_def constructor_def)
  have ss: "getStreamSettings with_streams = Ref 1"
    by (simp add: getStreamSettings_def get_def js_member_def with_streams_def)
  have st: "getStreams_input with_streams = Ref 0"
    by (simp add: getStreams_input_def get_def js_member_def with_streams_def)
  have h1: "heap with_streams 1 = Some (Plain ?settings)"
    and h0: "heap with_streams 0 = Some (Plain ?strms)"
    by (simp_all add: with_streams_def)
  have ni: "\<not> inherited ''/c''" "\<not> inherited ''/a''" "\<not> inherited ''/b''"
    by (simp_all add: inherited_def object_prototype_def)
  have v0: "streams_cache_valid constructor"
    by (simp add: streams_cache_valid_def constructor_def)
  have f0: "unused constructor (next_ref constructor)"
    by (simp add: unused_def constructor_def)
  have st0: "getStreams_input constructor = Undefined"
    by (simp add: getStreams_input_def get_def js_member_def inherited_def object_prototype_def
        constructor_def)
  from getStreams_filters_by_settings [OF v f, of 1 ?settings 0 ?strms] ss st h1 h0
  obtain r ps where r: "fst (getStreams with_streams) = Inr (Ref r)"
    and h: "heap (snd (getStreams with_streams)) r = Some (Plain ps)"
    and m: "\<And>name. \<not> inherited name \<Longrightarrow> map_of ps name
                      = (case map_of ?settings name of
                           None \<Rightarrow> None
                         | Some v \<Rightarrow> if truthy v then map_of ?strms name else None)"
    and o: "heap (snd (getStreams with_streams)) 0 = Some (Plain ?strms)"
    by auto
  have "map_of ps ''/a'' = Some (Num (Fin 1))" "map_of ps ''/b'' = None" "map_of ps ''/c'' = None"
    using m [OF ni(2)] m [OF ni(3)] m [OF ni(1)] by simp_all
  with r h have ex: "\<exists>r ps. fst (getStreams with_streams) = Inr (Ref r)
          \<and> heap (snd (getStreams with_streams)) r = Some (Plain ps)
          \<and> map_of ps ''/a'' = Some (Num (Fin 1)) \<and> map_of ps ''/b'' = None \<and> map_of ps ''/c'' = None"
    by blast
  from getStreams_filters_by_settings [OF v0 f0] st0
  have "fst (getStreams constructor) = Inr Undefined" by simp
  with v f ss st h1 h0 ni ex o v0 f0 st0 show ?thesis by simp
qed

section \<open>The current frame\<close>

lemma getCurrentFrame_unfold:
  assumes ins: "getCurrentFrame_inputs w = (Inr ins, w1)" and miss: "cached (sel_frame w1) ins = None"
    and ar: "ins = [logSynchronizer, streamSettings, timestamp, lookAhead, strms]"
  shows "fst (getCurrentFrame frame_of w)
           = fst (getCurrentFrame_fn frame_of logSynchronizer streamSettings timestamp lookAhead w1)"
    and "trace (snd (getCurrentFrame frame_of w))
           = trace (snd (getCurrentFrame_fn frame_of logSynchronizer streamSettings timestamp lookAhead w1))"
  using ins miss ar
  by (auto simp add: getCurrentFrame_def createSelector_def split: prod.splits sum.splits)

text \<open>
  Claim C5. Whenever \<^verbatim>\<open>getCurrentFrame()\<close> computes its result (nothing cached, or an
  input changed): it returns \<^verbatim>\<open>null\<close>, without calling the synchronizer, if the
  \<^verbatim>\<open>logSynchronizer\<close> attribute is absent (falsy) or the current timestamp is not a
  finite number; otherwise it calls \<^verbatim>\<open>setTime(timestamp)\<close>, then
  \<^verbatim>\<open>setLookAheadTimeOffset(lookAhead)\<close>, then returns what
  \<^verbatim>\<open>getCurrentFrame(streamSettings)\<close> of the synchronizer yields with both values
  pushed. The trace records the three calls in this order.
\<close>

theorem getCurrentFrame_pushes_before_reading:
  assumes rec: "frame_recomputes w" and fresh: "unused w (next_ref w)"
  shows "(\<not> truthy (getLogSynchronizer w) \<or> \<not> isFinite (getCurrentTime w) \<longrightarrow>
            fst (getCurrentFrame frame_of w) = Inr Null
            \<and> trace (snd (getCurrentFrame frame_of w)) = trace w)
       \<and> (getLogSynchronizer w = Ref a \<and> heap w a = Some (Sync s) \<and> isFinite (getCurrentTime w) \<longrightarrow>
            fst (getCurrentFrame frame_of w)
              = Inr (frame_of a (s\<lparr>sync_time := getCurrentTime w, sync_lookAhead := getLookAhead w\<rparr>)
                      (getStreamSettings w))
            \<and> trace (snd (getCurrentFrame frame_of w))
              = trace w @ [SetTime a (getCurrentTime w),
                           SetLookAheadTimeOffset a (getLookAhead w),
                           GetCurrentFrame a (getStreamSettings w)])"
proof -
  obtain v where v: "fst (getStreams w) = Inr v"
    using getStreams_returns [of w] by blast
  note tr = getStreams_trace [of w]
  note hp = getStreams_heap [of _ w]
  let ?w1 = "snd (getStreams w)"
  let ?ins = "[getLogSynchronizer w, getStreamSettings w, getCurrentTime w, getLookAhead w, v]"
  have ins: "getCurrentFrame_inputs w = (Inr ?ins, ?w1)"
    using v by (cases "getStreams w") (simp add: getCurrentFrame_inputs_def)
  from rec ins have miss: "cached (sel_frame ?w1) ?ins = None"
    by (simp add: frame_recomputes_def)
  note unf = getCurrentFrame_unfold [OF ins miss refl, of frame_of]
  show ?thesis
  proof (intro conjI impI)
    assume no: "\<not> truthy (getLogSynchronizer w) \<or> \<not> isFinite (getCurrentTime w)"
    then show "fst (getCurrentFrame frame_of w) = Inr Null"
      by (auto simp add: unf getCurrentFrame_fn_def)
    from no show "trace (snd (getCurrentFrame frame_of w)) = trace w"
      by (auto simp add: unf getCurrentFrame_fn_def tr)
  next
    assume yes: "getLogSynchronizer w = Ref a \<and> heap w a = Some (Sync s) \<and> isFinite (getCurrentTime w)"
    from fresh yes have "a \<noteq> next_ref w" by (auto simp add: unused_def)
    then have h1: "heap ?w1 a = Some (Sync s)" using yes by (simp add: hp)
    have so: "sync_of ?w1 (Ref a) = Some a" by (simp add: sync_of_def h1)
    from yes so h1 show "fst (getCurrentFrame frame_of w)
              = Inr (frame_of a (s\<lparr>sync_time := getCurrentTime w, sync_lookAhead := getLookAhead w\<rparr>)
                      (getStreamSettings w))"
      by (simp add: unf getCurrentFrame_fn_def sync_setTime_def sync_setLookAheadTimeOffset_def
          sync_getCurrentFrame_def Let_def)
    from yes so h1 show "trace (snd (getCurrentFrame frame_of w))
              = trace w @ [SetTime a (getCurrentTime w),
                           SetLookAheadTimeOffset a (getLookAhead w),
                           GetCurrentFrame a (getStreamSettings w)]"
      by (simp add: unf getCurrentFrame_fn_def sync_setTime_def sync_setLookAheadTimeOffset_def
          sync_getCurrentFrame_def Let_def tr)
  qed
qed

theorem getCurrentFrame_pushes_before_reading_witness:
  "frame_recomputes with_synchronizer \<and> unused with_synchronizer (next_ref with_synchronizer)
   \<and> getLogSynchronizer with_synchronizer = Ref 0
   \<and> heap with_synchronizer 0 = Some (Sync \<lparr>sync_time = Undefined, sync_lookAhead = Undefined\<rparr>)
   \<and> isFinite (getCurrentTime with_synchronizer)
   \<and> fst (getCurrentFrame (\<lambda>a s streamSettings. sync_time s) with_synchronizer) = Inr (Num (Fin 12))
   \<and> trace (snd (getCurrentFrame (\<lambda>a s streamSettings. sync_time s) with_synchronizer))
       = [SetTime 0 (Num (Fin 12)), SetLookAheadTimeOffset 0 (Num (Fin 3)), GetCurrentFrame 0 Undefined]
   \<and> frame_recomputes constructor \<and> unused constructor (next_ref constructor)
   \<and> \<not> truthy (getLogSynchronizer constructor)
   \<and> fst (getCurrentFrame (\<lambda>a s streamSettings. sync_time s) constructor) = Inr Null
   \<and> trace (snd (getCurrentFrame (\<lambda>a s streamSettings. sync_time s) constructor)) = []"
proof -
  have ls: "getLogSynchronizer with_synchronizer = Ref 0"
    and ss: "getStreamSettings with_synchronizer = Undefined"
    and ti: "getCurrentTime with_synchronizer = Num (Fin 12)"
    and la: "getLookAhead with_synchronizer = Num (Fin 3)"
    and st: "getStreams_input with_synchronizer = Undefined"
    by (simp_all add: getLogSynchronizer_def getStreamSettings_def getCurrentTime_def
        getLookAhead_def getStreams_input_def get_def js_member_def inherited_def
        object_prototype_def with_synchronizer_def)
  have c1: "sel_streams with_synchronizer = None" and c2: "sel_frame with_synchronizer = None"
    and tr: "trace with_synchronizer = []"
    by (simp_all add: with_synchronizer_def constructor_def)
  have gs: "getStreams with_synchronizer
      = (Inr Undefined, with_synchronizer\<lparr>sel_streams := Some ([Undefined, Undefined], Undefined)\<rparr>)"
    by (simp add: getStreams_unfold ss st cached_def c1 getStreams_fn_def)
  have rec: "frame_recomputes with_synchronizer"
    by (simp add: frame_recomputes_def getCurrentFrame_inputs_def gs cached_def c2)
  have f: "unused with_synchronizer (next_ref with_synchronizer)"
    by (simp add: unused_def with_synchronizer_def constructor_def)
  have h: "heap with_synchronizer 0 = Some (Sync \<lparr>sync_time = Undefined, sync_lookAhead = Undefined\<rparr>)"
    by (simp add: with_synchronizer_def)
  have ls0: "getLogSynchronizer constructor = Undefined"
    and ss0: "getStreamSettings constructor = Undefined"
    and st0: "getStreams_input constructor = Undefined"
    by (simp_all add: getLogSynchronizer_def getStreamSettings_def getStreams_input_def
        get_def js_member_def inherited_def object_prototype_def constructor_def)
  have d1: "sel_streams constructor = None" and d2: "sel_frame constructor = None"
    and tr0: "trace constructor = []"
    by (simp_all add: constructor_def)
  have gs0: "getStreams constructor
      = (Inr Undefined, constructor\<lparr>sel_streams := Some ([Undefined, Undefined], Undefined)\<rparr>)"
    by (simp add: getStreams_unfold ss0 st0 cached_def d1 getStreams_fn_def)
  have rec0: "frame_recomputes constructor"
    by (simp add: frame_recomputes_def getCurrentFrame_inputs_def gs0 cached_def d2)
  have f0: "unused constructor (next_ref constructor)"
    by (simp add: unused_def constructor_def)
  show ?thesis
    using rec f ls h rec0 f0
      getCurrentFrame_pushes_before_reading [OF rec f,
        where a = 0 and s = "\<lparr>sync_time = Undefined, sync_lookAhead = Undefined\<rparr>"
          and frame_of = "\<lambda>a s streamSettings. sync_time s"]
      getCurrentFrame_pushes_before_reading [OF rec0 f0,
        where a = 0 and s = "\<lparr>sync_time = Undefined, sync_lookAhead = Undefined\<rparr>"
          and frame_of = "\<lambda>a s streamSettings. sync_time s"]
    by (simp add: ti la ss tr ls0 tr0)
qed

section \<open>A burst of writes and its flush\<close>

lemma writes_refl: "writes w w"
  by (simp add: writes_def)

lemma writes_trace: "writes w (w\<lparr>trace := t\<rparr>)"
  by (simp add: writes_def)

lemma writes_set_attr: "writes w (set_attr key val w)"
  by (simp add: writes_def set_attr_def Let_def requestAnimationFrame_def handle_truthy_def)

lemma writes_trans:
  assumes "writes w w'" and "writes w' w''"
  shows "writes w w''"
proof (cases "version w' = version w")
  case True
  with assms show ?thesis by (auto simp add: writes_def split: if_splits)
next
  case False
  note first = this
  show ?thesis
  proof (cases "version w'' = version w'")
    case True
    with assms first show ?thesis by (auto simp add: writes_def split: if_splits)
  next
    case False
    with assms first show ?thesis by (auto simp add: writes_def split: if_splits)
  qed
qed

lemma writes_version: "writes w w' \<Longrightarrow> version w \<le> version w'"
  by (auto simp add: writes_def split: if_splits)

lemma writes_listeners: "writes w w' \<Longrightarrow> listeners w' = listeners w"
  by (simp add: writes_def)

lemma only_sets_perform_all:
  "only_sets as \<Longrightarrow> fst (perform_all as w) = None \<and> writes w (snd (perform_all as w))"
proof (induction as arbitrary: w)
  case Nil
  show ?case by (simp add: writes_refl)
next
  case (Cons a as)
  show ?case
  proof (cases a)
    case (ASet key val)
    with Cons.prems have "only_sets as" by simp
    from Cons.IH [OF this, of "set_attr key val w"]
    have n: "fst (perform_all as (set_attr key val w)) = None"
      and w: "writes (set_attr key val w) (snd (perform_all as (set_attr key val w)))"
      by simp_all
    from writes_set_attr [of w key val] w
    have "writes w (snd (perform_all as (set_attr key val w)))" by (rule writes_trans)
    with n ASet show ?thesis by simp
  next
    case (ASubscribe f)
    with Cons.prems show ?thesis by simp
  next
    case (AUnsubscribe f)
    with Cons.prems show ?thesis by simp
  next
    case (AOn eventType cb)
    with Cons.prems show ?thesis by simp
  next
    case (AOff eventType cb)
    with Cons.prems show ?thesis by simp
  qed
qed

lemma version_set_attr:
  "version (set_attr key val w) = (if strict_neq (get key w) val then version w + 1 else version w)"
  by (simp add: set_attr_def Let_def requestAnimationFrame_def)

lemma listener_writes_raise_generation:
  "only_sets as \<Longrightarrow> version (snd (perform_all as w)) = version w + changing_sets as w"
proof (induction as arbitrary: w)
  case Nil
  show ?case by simp
next
  case (Cons a as)
  show ?case
  proof (cases a)
    case (ASet key val)
    with Cons.prems have "only_sets as" by simp
    from Cons.IH [OF this, of "set_attr key val w"] ASet show ?thesis
      by (simp add: version_set_attr)
  next
    case (ASubscribe f)
    with Cons.prems show ?thesis by simp
  next
    case (AUnsubscribe f)
    with Cons.prems show ?thesis by simp
  next
    case (AOn eventType cb)
    with Cons.prems show ?thesis by simp
  next
    case (AOff eventType cb)
    with Cons.prems show ?thesis by simp
  qed
qed

lemma sets_agree:
  "only_sets as \<Longrightarrow> state w = state w' \<Longrightarrow> version w = version w' \<Longrightarrow>
   state (snd (perform_all as w)) = state (snd (perform_all as w'))
   \<and> version (snd (perform_all as w)) = version (snd (perform_all as w'))"
proof (induction as arbitrary: w w')
  case Nil
  then show ?case by simp
next
  case (Cons a as)
  show ?case
  proof (cases a)
    case (ASet key val)
    with Cons.prems have o: "only_sets as" by simp
    from Cons.prems(2) have g: "get key w = get key w'" by (simp add: get_def)
    have s: "state (set_attr key val w) = state (set_attr key val w')"
      using Cons.prems(2) g by (simp add: state_set_attr)
    have v: "version (set_attr key val w) = version (set_attr key val w')"
      using Cons.prems(3) g by (simp add: version_set_attr)
    from Cons.IH [OF o s v] ASet show ?thesis by simp
  next
    case (ASubscribe f)
    with Cons.prems show ?thesis by simp
  next
    case (AUnsubscribe f)
    with Cons.prems show ?thesis by simp
  next
    case (AOn eventType cb)
    with Cons.prems show ?thesis by simp
  next
    case (AOff eventType cb)
    with Cons.prems show ?thesis by simp
  qed
qed

lemma flush_worlds_length: "length (flush_worlds lenv fs w) = length fs"
  by (induction fs arbitrary: w) simp_all

lemma flush_worlds_agree:
  "well_behaved lenv fs \<Longrightarrow> state w = state w' \<Longrightarrow> version w = version w' \<Longrightarrow>
   map version (flush_worlds lenv fs w) = map version (flush_worlds lenv fs w')"
proof (induction fs arbitrary: w w')
  case Nil
  show ?case by simp
next
  case (Cons f fs)
  from Cons.prems(1) have o: "only_sets (acts (lenv f (version w)))"
    and rest: "well_behaved lenv fs"
    by (simp_all add: well_behaved_def)
  from sets_agree [OF o Cons.prems(2,3)] Cons.prems(3)
  have s: "state (snd (perform_all (acts (lenv f (version w))) w))
      = state (snd (perform_all (acts (lenv f (version w'))) w'))"
    and v: "version (snd (perform_all (acts (lenv f (version w))) w))
      = version (snd (perform_all (acts (lenv f (version w'))) w'))"
    by simp_all
  from Cons.IH [OF rest s v] Cons.prems(3) show ?case by simp
qed

lemma flush_worlds_step:
  "well_behaved lenv fs \<Longrightarrow> Suc i < length fs \<Longrightarrow>
   version (flush_worlds lenv fs w ! Suc i)
     = version (flush_worlds lenv fs w ! i)
       + changing_sets (acts (lenv (fs ! i) (version (flush_worlds lenv fs w ! i))))
           (flush_worlds lenv fs w ! i)"
proof (induction fs arbitrary: w i)
  case Nil
  then show ?case by simp
next
  case (Cons f fs)
  from Cons.prems(1) have o: "only_sets (acts (lenv f (version w)))"
    and rest: "well_behaved lenv fs"
    by (simp_all add: well_behaved_def)
  let ?w' = "snd (perform_all (acts (lenv f (version w))) w)"
  show ?case
  proof (cases i)
    case 0
    from Cons.prems(2) 0 obtain f' fs' where fs: "fs = f' # fs'" by (cases fs) simp_all
    from listener_writes_raise_generation [OF o, of w] 0 fs show ?thesis by simp
  next
    case (Suc j)
    with Cons.prems(2) have "Suc j < length fs" by simp
    from Cons.IH [OF rest this, of ?w'] Suc show ?thesis by simp
  qed
qed

lemma call_listener_tame:
  assumes "\<not> throws (lenv f (version w))" and "only_sets (acts (lenv f (version w)))"
  shows "fst (call_listener lenv f w) = None"
    and "writes w (step lenv f w)"
    and "trace (step lenv f w) = trace w @ [CallListener f (version w)]"
    and "state (step lenv f w) = state (snd (perform_all (acts (lenv f (version w))) w))"
    and "version (step lenv f w) = version (snd (perform_all (acts (lenv f (version w))) w))"
proof -
  let ?w0 = "w\<lparr>trace := trace w @ [CallListener f (version w)]\<rparr>"
  let ?r = "lenv f (version w)"
  obtain w1 where p: "perform_all (acts ?r) ?w0 = (None, w1)"
    using only_sets_perform_all [OF assms(2), of ?w0]
    by (cases "perform_all (acts ?r) ?w0") simp
  have s: "step lenv f w = w1"
    using p assms(1) by (simp add: step_def call_listener_def react_def)
  show "fst (call_listener lenv f w) = None"
    using p assms(1) by (simp add: call_listener_def react_def)
  from only_sets_perform_all [OF assms(2), of ?w0] p have "writes ?w0 w1" by simp
  with writes_trace [of w] show "writes w (step lenv f w)"
    unfolding s by (rule writes_trans)
  from perform_all_trace [of "acts ?r" ?w0] p
  show "trace (step lenv f w) = trace w @ [CallListener f (version w)]"
    by (simp add: s)
  from sets_agree [OF assms(2), of ?w0 w] p
  show "state (step lenv f w) = state (snd (perform_all (acts (lenv f (version w))) w))"
    and "version (step lenv f w) = version (snd (perform_all (acts (lenv f (version w))) w))"
    by (simp_all add: s)
qed

lemma forEach_tame:
  "well_behaved lenv (listeners w) \<Longrightarrow> len = length (listeners w) \<Longrightarrow>
   forEach_listeners lenv k len w = (None, fold (step lenv) (drop k (listeners w)) w)"
proof (induction lenv k len w rule: forEach_listeners.induct)
  case (1 lenv k len w)
  show ?case
  proof (cases "k < len")
    case False
    with "1.prems"(2) have "drop k (listeners w) = []" by simp
    with False show ?thesis by (subst forEach_listeners.simps) simp
  next
    case True
    let ?f = "listeners w ! k"
    from True "1.prems" have inl: "k < length (listeners w)" by simp
    then have mem: "?f \<in> set (listeners w)" by simp
    with "1.prems"(1) have t: "\<not> throws (lenv ?f (version w))"
      and o: "only_sets (acts (lenv ?f (version w)))"
      by (simp_all add: well_behaved_def)
    note c = call_listener_tame [of lenv ?f w, OF t o]
    have pair: "call_listener lenv ?f w = (None, step lenv ?f w)"
      using c(1) by (simp add: step_def prod_eq_iff)
    have ls: "listeners (step lenv ?f w) = listeners w"
      using c(2) by (rule writes_listeners)
    have ih: "forEach_listeners lenv (k + 1) len (step lenv ?f w)
        = (None, fold (step lenv) (drop (k + 1) (listeners (step lenv ?f w))) (step lenv ?f w))"
      using True inl pair "1.prems" ls by (intro "1.IH"(1)) simp_all
    have d: "drop k (listeners w) = ?f # drop (k + 1) (listeners w)"
      using inl by (simp add: Cons_nth_drop_Suc)
    show ?thesis
      using True inl pair ih ls d
      by (subst forEach_listeners.simps) simp
  qed
qed

lemma listener_calls_append:
  "listener_calls (xs @ ys) = listener_calls xs @ listener_calls ys"
  by (induction xs rule: listener_calls.induct) simp_all

lemma fires_append: "fires (xs @ ys) = fires xs @ fires ys"
  by (induction xs rule: fires.induct) simp_all

lemma fold_steps:
  assumes "well_behaved lenv ls"
  shows "writes w (fold (step lenv) ls w)
    \<and> trace (fold (step lenv) ls w)
        = trace w @ map (\<lambda>(f, g). CallListener f g) (zip ls (map version (flush_worlds lenv ls w)))
    \<and> (\<forall>g\<in>set (map version (flush_worlds lenv ls w)).
          version w \<le> g \<and> g \<le> version (fold (step lenv) ls w))"
  using assms
proof (induction ls arbitrary: w)
  case Nil
  show ?case by (simp add: writes_refl)
next
  case (Cons f ls)
  from Cons.prems have t: "\<not> throws (lenv f (version w))"
    and o: "only_sets (acts (lenv f (version w)))" and rest: "well_behaved lenv ls"
    by (simp_all add: well_behaved_def)
  note c = call_listener_tame [of lenv f w, OF t o]
  let ?w' = "step lenv f w"
  let ?w'' = "fold (step lenv) ls ?w'"
  let ?p = "snd (perform_all (acts (lenv f (version w))) w)"
  have ag: "map version (flush_worlds lenv ls ?w') = map version (flush_worlds lenv ls ?p)"
    using rest c(4) c(5) by (rule flush_worlds_agree)
  from Cons.IH [OF rest, of ?w'] have wr: "writes ?w' ?w''"
    and tr: "trace ?w'' = trace ?w'
        @ map (\<lambda>(f, g). CallListener f g) (zip ls (map version (flush_worlds lenv ls ?w')))"
    and bd: "\<forall>g\<in>set (map version (flush_worlds lenv ls ?w')). version ?w' \<le> g \<and> g \<le> version ?w''"
    by simp_all
  have v1: "version w \<le> version ?w'" using c(2) by (rule writes_version)
  have v2: "version ?w' \<le> version ?w''" using wr by (rule writes_version)
  have "writes w ?w''" using c(2) wr by (rule writes_trans)
  moreover have "trace ?w'' = trace w
      @ map (\<lambda>(f, g). CallListener f g) (zip (f # ls) (map version (flush_worlds lenv (f # ls) w)))"
    using tr c(3) ag by simp
  moreover have "\<forall>g\<in>set (map version (flush_worlds lenv (f # ls) w)).
      version w \<le> g \<and> g \<le> version ?w''"
    using bd v1 v2 ag by auto
  ultimately show ?case by simp
qed

lemma listener_calls_map:
  "listener_calls (map (\<lambda>(f, g). CallListener f g) ps) = ps"
  by (induction ps) auto

lemma fires_map: "fires (map (\<lambda>(f, g). CallListener f g) ps) = []"
  by (induction ps) auto

lemma set_attr_trace: "trace (set_attr key val w) = trace w"
  by (simp add: set_attr_def Let_def requestAnimationFrame_def)

lemma set_attr_version_changed:
  "strict_neq (get key w) val \<Longrightarrow> version (set_attr key val w) = version w + 1"
  by (simp add: set_attr_def Let_def requestAnimationFrame_def)

lemma set_all_writes: "writes w (set_all calls w)"
proof (induction calls arbitrary: w)
  case Nil
  show ?case by (simp add: writes_refl)
next
  case (Cons c calls)
  obtain key val where c: "c = (key, val)" by (cases c)
  have "writes (set_attr key val w) (set_all calls (set_attr key val w))" by (rule Cons.IH)
  with writes_set_attr [of w key val] have "writes w (set_all calls (set_attr key val w))"
    by (rule writes_trans)
  with c show ?case by simp
qed

lemma set_all_trace: "trace (set_all calls w) = trace w"
proof (induction calls arbitrary: w)
  case Nil
  show ?case by simp
next
  case (Cons c calls)
  obtain key val where c: "c = (key, val)" by (cases c)
  with Cons.IH [of "set_attr key val w"] show ?case by (simp add: set_attr_trace)
qed

lemma set_all_version:
  "all_changed calls w \<Longrightarrow> version (set_all calls w) = version w + length calls"
proof (induction calls arbitrary: w)
  case Nil
  show ?case by simp
next
  case (Cons c calls)
  obtain key val where c: "c = (key, val)" by (cases c)
  with Cons.prems have ch: "strict_neq (get key w) val"
    and rest: "all_changed calls (set_attr key val w)" by simp_all
  from Cons.IH [OF rest] c ch show ?case by (simp add: set_attr_version_changed)
qed

lemma animation_frame_single:
  assumes q: "raf_queue w1 = [h]" and tame: "well_behaved lenv (listeners w1)"
  shows "animation_frame lenv w1
    = fold (step lenv) (listeners w1)
        (w1\<lparr>raf_queue := [], trace := trace w1 @ [Fire h], updateTimer := None\<rparr>)"
proof -
  let ?wa = "w1\<lparr>raf_queue := [], trace := trace w1 @ [Fire h], updateTimer := None\<rparr>"
  have ls: "listeners ?wa = listeners w1" by simp
  have "forEach_listeners lenv 0 (length (listeners ?wa)) ?wa
      = (None, fold (step lenv) (drop 0 (listeners ?wa)) ?wa)"
    using tame by (intro forEach_tame) simp_all
  then have "loader_update lenv (w1\<lparr>raf_queue := [], trace := trace w1 @ [Fire h]\<rparr>)
      = (None, fold (step lenv) (listeners w1) ?wa)"
    by (simp add: loader_update_def Let_def)
  then show ?thesis
    using q by (simp add: animation_frame_def)
qed

text \<open>
  Claim C1, as stated, has every listener called with the final generation of the burst,
  also when a listener writes during the flush. With the listeners 1 and 2 subscribed and
  listener 1 calling \<^verbatim>\<open>set\<close> when it runs, a burst of one write ends at generation 1;
  the flush calls listener 1 with 1 and listener 2 with 2, since \<^verbatim>\<open>this._version\<close> is
  read at each call.
\<close>

theorem listener_write_counterexample:
  "updateTimer two_listeners = None \<and> raf_queue two_listeners = []
   \<and> all_changed [(''timestamp'', Num (Fin 1))] two_listeners
   \<and> version (set_all [(''timestamp'', Num (Fin 1))] two_listeners) = 1
   \<and> listener_calls (trace (animation_frame writing_listener
         (set_all [(''timestamp'', Num (Fin 1))] two_listeners))) = [(1, 1), (2, 2)]"
  by (simp add: two_listeners_def constructor_def writing_listener_def get_def js_member_def
      js_assign_def inherited_def object_prototype_def strict_neq_def
      strict_eq_def set_attr_def requestAnimationFrame_def handle_truthy_def Let_def
      animation_frame_def loader_update_def forEach_listeners.simps call_listener_def react_def)

text \<open>
  Claim C1, amended. Take a turn that starts with no tick pending, and a nonempty sequence
  of \<^verbatim>\<open>set(key, value)\<close> calls each of which changes the stored value. The generation
  grows by the number of calls and exactly one tick is armed, by the first write. When
  the host fires it, exactly one flush occurs: the pending-tick handle is cleared, then
  every subscribed listener is called once, in subscription order, each with the
  generation current at its own call. For the first listener this is the final
  generation of the burst; for each following one it is the generation given to the
  listener before it, raised by the number of \<^verbatim>\<open>set\<close> calls of that listener which
  changed a stored value. So all listeners receive the final generation of the burst
  when no listener writes during the flush, and then no tick is pending afterwards;
  otherwise a new tick is armed, distinct from the one being flushed. Listeners are taken
  not to throw and to do nothing but call \<^verbatim>\<open>set\<close>, and no write of the turn or of a
  listener is under the name \<^verbatim>\<open>__proto__\<close>.
\<close>

theorem burst_flushes_once:
  assumes idle: "updateTimer w = None \<and> raf_queue w = []"
    and burst: "calls \<noteq> [] \<and> all_changed calls w"
    and names: "\<forall>c\<in>set calls. fst c \<noteq> ''__proto__''"
    and tame: "well_behaved lenv (listeners w)"
  shows "let w1 = set_all calls w; w2 = animation_frame lenv w1;
             ws = flush_worlds lenv (listeners w) w1; gs = map version ws in
      version w1 = version w + length calls
    \<and> updateTimer w1 = Some (raf_last w + 1) \<and> raf_queue w1 = [raf_last w + 1]
    \<and> fires (trace w2) = fires (trace w) @ [raf_last w + 1]
    \<and> length gs = length (listeners w)
    \<and> listener_calls (trace w2) = listener_calls (trace w) @ zip (listeners w) gs
    \<and> (listeners w \<noteq> [] \<longrightarrow> hd gs = version w1)
    \<and> (\<forall>i. Suc i < length (listeners w) \<longrightarrow>
          gs ! Suc i = gs ! i + changing_sets (acts (lenv (listeners w ! i) (gs ! i))) (ws ! i))
    \<and> (\<forall>g\<in>set gs. version w1 \<le> g \<and> g \<le> version w2)
    \<and> (if version w2 = version w1
       then updateTimer w2 = None \<and> raf_queue w2 = []
       else updateTimer w2 = Some (raf_last w + 2) \<and> raf_queue w2 = [raf_last w + 2])"
proof -
  let ?h = "raf_last w + 1"
  let ?w1 = "set_all calls w"
  let ?wa = "?w1\<lparr>raf_queue := [], trace := trace ?w1 @ [Fire ?h], updateTimer := None\<rparr>"
  let ?w2 = "animation_frame lenv ?w1"
  let ?ws = "flush_worlds lenv (listeners w) ?w1"
  let ?gs = "map version ?ws"
  have v1: "version ?w1 = version w + length calls"
    using burst by (simp add: set_all_version)
  with burst have gt: "version ?w1 \<noteq> version w" by simp
  have wr1: "writes w ?w1" by (rule set_all_writes)
  have ls1: "listeners ?w1 = listeners w" using wr1 by (rule writes_listeners)
  from wr1 gt idle have t1: "updateTimer ?w1 = Some ?h" and q1: "raf_queue ?w1 = [?h]"
    and l1: "raf_last ?w1 = ?h"
    by (simp_all add: writes_def handle_truthy_def)
  have tr1: "trace ?w1 = trace w" by (rule set_all_trace)
  have tame1: "well_behaved lenv (listeners ?w1)" using tame ls1 by simp
  have w2: "?w2 = fold (step lenv) (listeners w) ?wa"
    using animation_frame_single [OF q1 tame1] ls1 by simp
  have ag: "map version (flush_worlds lenv (listeners w) ?wa) = ?gs"
    using tame by (rule flush_worlds_agree) simp_all
  from fold_steps [OF tame, of ?wa] have wr2: "writes ?wa ?w2"
    and tr2: "trace ?w2 = trace ?wa @ map (\<lambda>(f, g). CallListener f g) (zip (listeners w) ?gs)"
    and bd: "\<forall>g\<in>set ?gs. version ?wa \<le> g \<and> g \<le> version ?w2"
    unfolding w2 ag by simp_all
  have f: "fires (trace ?w2) = fires (trace w) @ [?h]"
    by (simp add: tr2 tr1 fires_append fires_map)
  have len: "length ?gs = length (listeners w)" by (simp add: flush_worlds_length)
  have lc: "listener_calls (trace ?w2) = listener_calls (trace w) @ zip (listeners w) ?gs"
    by (simp add: tr2 tr1 listener_calls_append listener_calls_map)
  have hd: "listeners w \<noteq> [] \<longrightarrow> hd ?gs = version ?w1"
    by (cases "listeners w") simp_all
  have st: "\<forall>i. Suc i < length (listeners w) \<longrightarrow>
      ?gs ! Suc i = ?gs ! i + changing_sets (acts (lenv (listeners w ! i) (?gs ! i))) (?ws ! i)"
  proof (intro allI impI)
    fix i
    assume i: "Suc i < length (listeners w)"
    then have "Suc i < length ?ws" "i < length ?ws" by (simp_all add: flush_worlds_length)
    then have "?gs ! Suc i = version (?ws ! Suc i)" "?gs ! i = version (?ws ! i)" by simp_all
    with flush_worlds_step [OF tame i, of ?w1]
    show "?gs ! Suc i = ?gs ! i + changing_sets (acts (lenv (listeners w ! i) (?gs ! i))) (?ws ! i)"
      by simp
  qed
  have bd': "\<forall>g\<in>set ?gs. version ?w1 \<le> g \<and> g \<le> version ?w2"
    using bd by simp
  have fin: "if version ?w2 = version ?w1
       then updateTimer ?w2 = None \<and> raf_queue ?w2 = []
       else updateTimer ?w2 = Some (raf_last w + 2) \<and> raf_queue ?w2 = [raf_last w + 2]"
    using wr2 l1 by (auto simp add: writes_def handle_truthy_def split: if_splits)
  show ?thesis
    unfolding Let_def using v1 t1 q1 f len lc hd st bd' fin by simp
qed

theorem burst_flushes_once_witness:
  "updateTimer two_listeners = None \<and> raf_queue two_listeners = []
   \<and> all_changed [(''timestamp'', Num (Fin 1)), (''timestamp'', Num (Fin 2)), (''lookAhead'', Num (Fin 3))]
        two_listeners
   \<and> list_all (\<lambda>c. fst c \<noteq> ''__proto__'')
        [(''timestamp'', Num (Fin 1)), (''timestamp'', Num (Fin 2)), (''lookAhead'', Num (Fin 3))]
   \<and> well_behaved writing_listener (listeners two_listeners)
   \<and> version (set_all [(''timestamp'', Num (Fin 1)), (''timestamp'', Num (Fin 2)), (''lookAhead'', Num (Fin 3))]
        two_listeners) = 3
   \<and> raf_queue (set_all [(''timestamp'', Num (Fin 1)), (''timestamp'', Num (Fin 2)), (''lookAhead'', Num (Fin 3))]
        two_listeners) = [1]
   \<and> fires (trace (animation_frame writing_listener
        (set_all [(''timestamp'', Num (Fin 1)), (''timestamp'', Num (Fin 2)), (''lookAhead'', Num (Fin 3))]
           two_listeners))) = [1]
   \<and> listener_calls (trace (animation_frame writing_listener
        (set_all [(''timestamp'', Num (Fin 1)), (''timestamp'', Num (Fin 2)), (''lookAhead'', Num (Fin 3))]
           two_listeners))) = [(1, 3), (2, 4)]
   \<and> updateTimer (animation_frame writing_listener
        (set_all [(''timestamp'', Num (Fin 1)), (''timestamp'', Num (Fin 2)), (''lookAhead'', Num (Fin 3))]
           two_listeners)) = Some 2"
proof -
  let ?calls = "[(''timestamp'', Num (Fin 1)), (''timestamp'', Num (Fin 2)), (''lookAhead'', Num (Fin 3))]"
  define w1 where "w1 = set_all ?calls two_listeners"
  define w2 where "w2 = animation_frame writing_listener w1"
  define gs where "gs = map version (flush_worlds writing_listener (listeners two_listeners) w1)"
  have idle: "updateTimer two_listeners = None \<and> raf_queue two_listeners = []"
    by (simp add: two_listeners_def constructor_def)
  have burst: "?calls \<noteq> [] \<and> all_changed ?calls two_listeners"
    by (simp add: two_listeners_def constructor_def get_def js_member_def js_assign_def
        inherited_def object_prototype_def strict_neq_def strict_eq_def
        set_attr_def requestAnimationFrame_def handle_truthy_def Let_def)
  have names: "\<forall>c\<in>set ?calls. fst c \<noteq> ''__proto__''" by simp
  have tame: "well_behaved writing_listener (listeners two_listeners)"
    by (simp add: well_behaved_def writing_listener_def)
  have rl: "raf_last two_listeners = 0" "version two_listeners = 0" "trace two_listeners = []"
    "listeners two_listeners = [1, 2]"
    by (simp_all add: two_listeners_def constructor_def)
  have gs: "gs = [3, 4]"
    unfolding gs_def w1_def
    by (simp add: two_listeners_def constructor_def writing_listener_def get_def js_member_def
        js_assign_def inherited_def object_prototype_def strict_neq_def strict_eq_def
        set_attr_def requestAnimationFrame_def handle_truthy_def Let_def)
  have v: "version w1 = 3" "version w2 = 4"
    unfolding w2_def w1_def
    by (simp_all add: two_listeners_def constructor_def writing_listener_def get_def js_member_def
        js_assign_def inherited_def object_prototype_def strict_neq_def strict_eq_def
        set_attr_def requestAnimationFrame_def handle_truthy_def Let_def
        animation_frame_def loader_update_def forEach_listeners.simps call_listener_def react_def)
  note t = burst_flushes_once [OF idle burst names tame, unfolded Let_def, folded w1_def,
      folded w2_def gs_def]
  from t have "raf_queue w1 = [raf_last two_listeners + 1]"
    and "fires (trace w2) = fires (trace two_listeners) @ [raf_last two_listeners + 1]"
    and "listener_calls (trace w2) = listener_calls (trace two_listeners) @ zip (listeners two_listeners) gs"
    and "if version w2 = version w1
       then updateTimer w2 = None \<and> raf_queue w2 = []
       else updateTimer w2 = Some (raf_last two_listeners + 2) \<and> raf_queue w2 = [raf_last two_listeners + 2]"
    by blast+
  then have "raf_queue w1 = [1] \<and> fires (trace w2) = [1]
      \<and> listener_calls (trace w2) = [(1, 3), (2, 4)] \<and> updateTimer w2 = Some 2"
    unfolding gs rl v by simp
  with idle burst names tame v(1) show ?thesis
    unfolding w2_def w1_def by (simp add: list_all_iff)
qed

subsection \<open>Listeners that leave or throw during the flush\<close>

text \<open>
  The two cases the statement above leaves out. \<^verbatim>\<open>forEach\<close> walks the listener array by
  index while \<^verbatim>\<open>unsubscribe\<close> splices it: when listener 1 unsubscribes itself during the
  flush, listener 2 moves to the index just visited and is not called in that flush.
\<close>

lemma unsubscribe_during_flush_skips_next:
  "listener_calls (trace (animation_frame leaving_listener
      (set_all [(''timestamp'', Num (Fin 1))] two_listeners))) = [(1, 1)]
   \<and> listeners (animation_frame leaving_listener
      (set_all [(''timestamp'', Num (Fin 1))] two_listeners)) = [2]"
  by (simp add: two_listeners_def constructor_def leaving_listener_def get_def js_member_def
      js_assign_def inherited_def object_prototype_def strict_neq_def
      strict_eq_def set_attr_def requestAnimationFrame_def handle_truthy_def Let_def
      animation_frame_def loader_update_def forEach_listeners.simps call_listener_def react_def
      unsubscribe_def)

text \<open>
  An exception of a listener ends the flush: the listeners after it are not called. The
  pending-tick handle has been cleared before, so later writes arm a tick again.
\<close>

lemma throw_during_flush_ends_it:
  "listener_calls (trace (animation_frame throwing_listener
      (set_all [(''timestamp'', Num (Fin 1))] two_listeners))) = [(1, 1)]
   \<and> updateTimer (animation_frame throwing_listener
      (set_all [(''timestamp'', Num (Fin 1))] two_listeners)) = None"
  by (simp add: two_listeners_def constructor_def throwing_listener_def get_def js_member_def
      js_assign_def inherited_def object_prototype_def strict_neq_def
      strict_eq_def set_attr_def requestAnimationFrame_def handle_truthy_def Let_def
      animation_frame_def loader_update_def forEach_listeners.simps call_listener_def react_def)

section \<open>The side conditions hold in every reachable world\<close>

text \<open>
  The theorems above take the selector caches to be empty or valid and the allocation
  pointer to be an address not in use, and the burst theorem starts from a world with no
  tick pending. A new loader is such a world, and every operation keeps the three
  properties: they hold in every reachable world.
\<close>

lemma heap_grows_refl: "heap_grows w w"
  by (simp add: heap_grows_def)

lemma allocated_mono: "heap_grows w w' \<Longrightarrow> allocated w v \<Longrightarrow> allocated w' v"
  by (cases v) (auto simp add: allocated_def heap_grows_def)

lemma cache_allocated_mono: "heap_grows w w' \<Longrightarrow> cache_allocated w c \<Longrightarrow> cache_allocated w' c"
  by (auto simp add: cache_allocated_def list_all_iff split: option.splits intro: allocated_mono)

lemma heap_grows_lookup:
  assumes "heap_grows w w'" and "allocated w v"
  shows "meta_of w' v = meta_of w v" and "own_props w' v = own_props w v"
proof -
  show "meta_of w' v = meta_of w v"
  proof (cases v)
    case (Ref a)
    with assms have "heap w' a = heap w a \<or> (is_sync (heap w a) \<and> is_sync (heap w' a))"
      by (simp add: heap_grows_def allocated_def)
    with Ref show ?thesis
      by (auto simp add: meta_of_def is_sync_def split: option.splits obj.splits)
  qed (simp_all add: meta_of_def)
  show "own_props w' v = own_props w v"
  proof (cases v)
    case (Ref a)
    with assms have "heap w' a = heap w a \<or> (is_sync (heap w a) \<and> is_sync (heap w' a))"
      by (simp add: heap_grows_def allocated_def)
    with Ref show ?thesis
      by (auto simp add: own_props_def is_sync_def split: option.splits obj.splits)
  qed (simp_all add: own_props_def)
qed

lemma heap_grows_fns:
  assumes "heap_grows w w'" and "allocated w md"
  shows "getLogStartTime_fn cfg md w' = getLogStartTime_fn cfg md w"
    and "getLogEndTime_fn md w' = getLogEndTime_fn md w"
  by (simp_all only: getLogStartTime_fn_def getLogEndTime_fn_def heap_grows_lookup(1) [OF assms])

lemma heap_grows_props:
  assumes "heap_grows w w'" and "allocated w v"
  shows "js_keys w' v = js_keys w v" and "js_prop w' v name = js_prop w v name"
  by (simp_all only: js_keys_own_props js_prop_def heap_grows_lookup(2) [OF assms])

lemma streams_loop_props:
  assumes "\<And>name. js_prop w' ss name = js_prop w ss name"
    and "\<And>name. js_prop w' st name = js_prop w st name"
  shows "streams_loop w' ss st names acc = streams_loop w ss st names acc"
  by (induction names arbitrary: acc) (simp_all add: assms)

lemma heap_grows_streams_loop:
  assumes "heap_grows w w'" and "allocated w ss" and "allocated w st"
  shows "streams_loop w' ss st (js_keys w' st) [] = streams_loop w ss st (js_keys w st) []"
  using assms by (simp add: heap_grows_props streams_loop_props [of w' ss w st])

lemma start_valid_transfer:
  assumes "heap_grows w w'" and "sel_start w' = sel_start w" and "cache_allocated w (sel_start w)"
    and "start_cache_valid cfg w"
  shows "start_cache_valid cfg w'"
proof (cases "sel_start w")
  case None
  with assms(2) show ?thesis by (simp add: start_cache_valid_def)
next
  case (Some c)
  obtain ins out where c: "c = (ins, out)" by (cases c)
  from assms(4) Some c obtain md where ins: "ins = [md]" and out: "out = getLogStartTime_fn cfg md w"
    by (auto simp add: start_cache_valid_def split: list.splits)
  from assms(3) Some c ins have "allocated w md" by (simp add: cache_allocated_def)
  with assms(1) have "getLogStartTime_fn cfg md w' = getLogStartTime_fn cfg md w"
    by (rule heap_grows_fns(1))
  with assms(2) Some c ins out show ?thesis by (simp add: start_cache_valid_def)
qed

lemma end_valid_transfer:
  assumes "heap_grows w w'" and "sel_end w' = sel_end w" and "cache_allocated w (sel_end w)"
    and "end_cache_valid w"
  shows "end_cache_valid w'"
proof (cases "sel_end w")
  case None
  with assms(2) show ?thesis by (simp add: end_cache_valid_def)
next
  case (Some c)
  obtain ins out where c: "c = (ins, out)" by (cases c)
  from assms(4) Some c obtain md where ins: "ins = [md]" and out: "out = getLogEndTime_fn md w"
    by (auto simp add: end_cache_valid_def split: list.splits)
  from assms(3) Some c ins have "allocated w md" by (simp add: cache_allocated_def)
  with assms(1) have "getLogEndTime_fn md w' = getLogEndTime_fn md w"
    by (rule heap_grows_fns(2))
  with assms(2) Some c ins out show ?thesis by (simp add: end_cache_valid_def)
qed

lemma heap_grows_plain:
  assumes "heap_grows w w'" and "r < next_ref w" and "heap w r = Some (Plain ps)"
  shows "heap w' r = Some (Plain ps)"
  using assms by (auto simp add: heap_grows_def is_sync_def)

lemma streams_valid_transfer:
  assumes ext: "heap_grows w w'" and same: "sel_streams w' = sel_streams w"
    and al: "cache_allocated w (sel_streams w)" and v: "streams_cache_valid w"
  shows "streams_cache_valid w'"
proof (cases "sel_streams w")
  case None
  with same show ?thesis by (simp add: streams_cache_valid_def)
next
  case (Some c)
  obtain ins out where c: "c = (ins, out)" by (cases c)
  from v Some c obtain ss st where ins: "ins = [ss, st]"
    by (auto simp add: streams_cache_valid_def split: list.splits)
  from al Some c ins have ass: "allocated w ss" and ast: "allocated w st" and aout: "allocated w out"
    by (simp_all add: cache_allocated_def)
  show ?thesis
  proof (cases "\<not> truthy ss \<or> \<not> truthy st")
    case True
    with v Some c ins same show ?thesis by (simp add: streams_cache_valid_def)
  next
    case False
    with v Some c ins obtain r where out: "out = Ref r"
      and h: "heap w r = Some (Plain (streams_loop w ss st (js_keys w st) []))"
      by (auto simp add: streams_cache_valid_def split: jsval.splits)
    from aout out have r: "r < next_ref w" by (simp add: allocated_def)
    from ext r h have "heap w' r = Some (Plain (streams_loop w ss st (js_keys w st) []))"
      by (rule heap_grows_plain)
    then have "heap w' r = Some (Plain (streams_loop w' ss st (js_keys w' st) []))"
      using heap_grows_streams_loop [OF ext ass ast] by simp
    with False Some c ins out same show ?thesis by (simp add: streams_cache_valid_def)
  qed
qed

lemma consistent_frame:
  assumes c: "consistent cfg w" and e: "heap_grows w w'"
    and h: "\<forall>a. next_ref w' \<le> a \<longrightarrow> heap w' a = None"
    and s: "list_all (\<lambda>(key, val). allocated w' val) (state w')"
    and c1: "sel_streams w' = sel_streams w" and c2: "sel_start w' = sel_start w"
    and c3: "sel_end w' = sel_end w"
  shows "consistent cfg w'"
proof -
  from c have a1: "cache_allocated w (sel_streams w)" and a2: "cache_allocated w (sel_start w)"
    and a3: "cache_allocated w (sel_end w)" and v1: "streams_cache_valid w"
    and v2: "start_cache_valid cfg w" and v3: "end_cache_valid w"
    by (simp_all add: consistent_def)
  have "cache_allocated w' (sel_streams w')" "cache_allocated w' (sel_start w')"
    "cache_allocated w' (sel_end w')"
    using e a1 a2 a3 c1 c2 c3 by (simp_all add: cache_allocated_mono)
  moreover have "streams_cache_valid w'" using e c1 a1 v1 by (rule streams_valid_transfer)
  moreover have "start_cache_valid cfg w'" using e c2 a2 v2 by (rule start_valid_transfer)
  moreover have "end_cache_valid w'" using e c3 a3 v3 by (rule end_valid_transfer)
  ultimately show ?thesis using h s by (simp add: consistent_def)
qed

lemma consistent_constructor: "consistent cfg constructor"
  by (simp add: consistent_def constructor_def cache_allocated_def streams_cache_valid_def
      start_cache_valid_def end_cache_valid_def)

lemma consistent_unused: "consistent cfg w \<Longrightarrow> unused w (next_ref w)"
  by (auto simp add: consistent_def unused_def list_all_iff allocated_def)

lemma consistent_get: "consistent cfg w \<Longrightarrow> allocated w (get key w)"
  by (auto simp add: consistent_def get_def js_member_def list_all_iff allocated_def
      split: option.splits dest!: map_of_SomeD)

lemma list_all_update:
  "list_all P xs \<Longrightarrow> P (key, val) \<Longrightarrow> list_all P (AList.update key val xs)"
  by (induction xs) auto

lemma list_all_js_assign:
  "list_all P xs \<Longrightarrow> P (key, val) \<Longrightarrow> list_all P (js_assign key val xs)"
  by (simp add: js_assign_def list_all_update)

lemma allocated_next: "next_ref w' = next_ref w \<Longrightarrow> allocated w' v = allocated w v"
  by (cases v) (simp_all add: allocated_def)

lemma sel_set_attr:
  "sel_streams (set_attr key val w) = sel_streams w"
  "sel_start (set_attr key val w) = sel_start w"
  "sel_end (set_attr key val w) = sel_end w"
  by (simp_all add: set_attr_def Let_def requestAnimationFrame_def)

lemma consistent_set_attr:
  assumes "consistent cfg w" and "allocated w val"
  shows "consistent cfg (set_attr key val w)"
proof (rule consistent_frame [OF assms(1)])
  show "heap_grows w (set_attr key val w)"
    by (simp add: heap_grows_def heap_set_attr next_ref_set_attr)
  show "\<forall>a. next_ref (set_attr key val w) \<le> a \<longrightarrow> heap (set_attr key val w) a = None"
    using assms(1) by (simp add: consistent_def heap_set_attr next_ref_set_attr)
  have al: "allocated (set_attr key val w) x = allocated w x" for x
    by (rule allocated_next [OF next_ref_set_attr])
  from assms have old: "list_all (\<lambda>(key, val). allocated w val) (state w)"
    by (simp add: consistent_def)
  with assms(2) have "list_all (\<lambda>(key, val). allocated w val) (js_assign key val (state w))"
    by (intro list_all_js_assign) simp_all
  with old have "list_all (\<lambda>(key, val). allocated w val) (state (set_attr key val w))"
    by (simp add: state_set_attr)
  then show "list_all (\<lambda>(k, v). allocated (set_attr key val w) v) (state (set_attr key val w))"
    by (simp add: al)
qed (rule sel_set_attr)+

lemma cache_allocated_next:
  assumes "next_ref w' = next_ref w"
  shows "cache_allocated w' c = cache_allocated w c"
proof -
  have "allocated w' = allocated w"
    using allocated_next [OF assms] by (simp add: fun_eq_iff)
  then show ?thesis by (simp only: cache_allocated_def)
qed

lemma heap_grows_same_heap: "heap w' = heap w \<Longrightarrow> next_ref w' = next_ref w \<Longrightarrow> heap_grows w w'"
  by (simp add: heap_grows_def)

lemma consistent_start_cache:
  assumes c: "consistent cfg w" and md: "allocated w md"
  shows "consistent cfg (w\<lparr>sel_start := Some ([md], getLogStartTime_fn cfg md w)\<rparr>)"
proof -
  let ?out = "getLogStartTime_fn cfg md w"
  let ?w' = "w\<lparr>sel_start := Some ([md], ?out)\<rparr>"
  have e: "heap_grows w ?w'" by (rule heap_grows_same_heap) simp_all
  have out: "allocated w ?out"
    using md by (auto simp add: getLogStartTime_fn_def allocated_def split: option.splits)
  have al: "allocated ?w' x = allocated w x" for x by (rule allocated_next) simp
  have ca: "cache_allocated ?w' x = cache_allocated w x" for x by (rule cache_allocated_next) simp
  have fn: "getLogStartTime_fn cfg md ?w' = ?out" by (rule getLogStartTime_fn_heap) simp
  from c have a1: "cache_allocated w (sel_streams w)" and a3: "cache_allocated w (sel_end w)"
    and v1: "streams_cache_valid w" and v3: "end_cache_valid w"
    and h: "\<forall>a. next_ref w \<le> a \<longrightarrow> heap w a = None"
    and s: "list_all (\<lambda>(k, v). allocated w v) (state w)"
    by (simp_all add: consistent_def)
  have "streams_cache_valid ?w'" using e _ a1 v1 by (rule streams_valid_transfer) simp
  moreover have "end_cache_valid ?w'" using e _ a3 v3 by (rule end_valid_transfer) simp
  moreover have "start_cache_valid cfg ?w'" by (simp add: start_cache_valid_def fn)
  moreover have "cache_allocated ?w' (sel_start ?w')"
    using md out by (simp add: ca) (simp add: cache_allocated_def)
  ultimately show ?thesis
    using h s a1 a3 by (simp add: consistent_def al ca)
qed

lemma consistent_end_cache:
  assumes c: "consistent cfg w" and md: "allocated w md"
  shows "consistent cfg (w\<lparr>sel_end := Some ([md], getLogEndTime_fn md w)\<rparr>)"
proof -
  let ?out = "getLogEndTime_fn md w"
  let ?w' = "w\<lparr>sel_end := Some ([md], ?out)\<rparr>"
  have e: "heap_grows w ?w'" by (rule heap_grows_same_heap) simp_all
  have out: "allocated w ?out"
    using md by (auto simp add: getLogEndTime_fn_def num_field_def allocated_def split: option.splits)
  have al: "allocated ?w' x = allocated w x" for x by (rule allocated_next) simp
  have ca: "cache_allocated ?w' x = cache_allocated w x" for x by (rule cache_allocated_next) simp
  have fn: "getLogEndTime_fn md ?w' = ?out" by (rule getLogEndTime_fn_heap) simp
  from c have a1: "cache_allocated w (sel_streams w)" and a2: "cache_allocated w (sel_start w)"
    and v1: "streams_cache_valid w" and v2: "start_cache_valid cfg w"
    and h: "\<forall>a. next_ref w \<le> a \<longrightarrow> heap w a = None"
    and s: "list_all (\<lambda>(k, v). allocated w v) (state w)"
    by (simp_all add: consistent_def)
  have "streams_cache_valid ?w'" using e _ a1 v1 by (rule streams_valid_transfer) simp
  moreover have "start_cache_valid cfg ?w'" using e _ a2 v2 by (rule start_valid_transfer) simp
  moreover have "end_cache_valid ?w'" by (simp add: end_cache_valid_def fn)
  moreover have "cache_allocated ?w' (sel_end ?w')"
    using md out by (simp add: ca) (simp add: cache_allocated_def)
  ultimately show ?thesis
    using h s a1 a2 by (simp add: consistent_def al ca)
qed

lemma consistent_getLogStartTime:
  assumes c: "consistent cfg w"
  shows "consistent cfg (snd (getLogStartTime cfg w))"
proof (cases "cached (sel_start w) [getMetadata w]")
  case (Some out)
  with c show ?thesis by (simp add: getLogStartTime_unfold)
next
  case None
  have "allocated w (getMetadata w)" using c by (simp add: getMetadata_def consistent_get)
  with c have "consistent cfg (w\<lparr>sel_start := Some ([getMetadata w],
      getLogStartTime_fn cfg (getMetadata w) w)\<rparr>)"
    by (rule consistent_start_cache)
  with None show ?thesis by (simp add: getLogStartTime_unfold)
qed

lemma consistent_getLogEndTime:
  assumes c: "consistent cfg w"
  shows "consistent cfg (snd (getLogEndTime w))"
proof (cases "cached (sel_end w) [getMetadata w]")
  case (Some out)
  with c show ?thesis by (simp add: getLogEndTime_unfold)
next
  case None
  have "allocated w (getMetadata w)" using c by (simp add: getMetadata_def consistent_get)
  with c have "consistent cfg (w\<lparr>sel_end := Some ([getMetadata w],
      getLogEndTime_fn (getMetadata w) w)\<rparr>)"
    by (rule consistent_end_cache)
  with None show ?thesis by (simp add: getLogEndTime_unfold)
qed

lemma consistent_seek:
  assumes c: "consistent cfg w"
  shows "consistent cfg (snd (seek cfg t w))"
proof (cases "truthy (getMetadata w)")
  case False
  have "allocated w (Num t)" by (simp add: allocated_def)
  with c have "consistent cfg (set_attr ''timestamp'' (Num t) w)" by (rule consistent_set_attr)
  with False show ?thesis by (simp add: seek_def)
next
  case True
  let ?w1 = "snd (getLogStartTime cfg w)"
  let ?w2 = "snd (getLogEndTime ?w1)"
  obtain v c1 where s1: "getLogStartTime cfg w = (Inr v, w\<lparr>sel_start := c1\<rparr>)"
    by (rule getLogStartTime_total)
  obtain v' c2 where s2: "getLogEndTime ?w1 = (Inr v', ?w1\<lparr>sel_end := c2\<rparr>)"
    by (rule getLogEndTime_total)
  have c1: "consistent cfg ?w1" using c by (rule consistent_getLogStartTime)
  then have c2: "consistent cfg ?w2" by (rule consistent_getLogEndTime)
  have "allocated ?w2 (Num (seek_target t v v'))" by (simp add: allocated_def)
  with c2 have "consistent cfg (set_attr ''timestamp'' (Num (seek_target t v v')) ?w2)"
    by (rule consistent_set_attr)
  moreover have "snd (seek cfg t w) = set_attr ''timestamp'' (Num (seek_target t v v')) ?w2"
    using True s1 s2 by (simp add: seek_def)
  ultimately show ?thesis by simp
qed

lemma consistent_alloc:
  assumes c: "consistent cfg w"
  shows "consistent cfg (snd (alloc ob w))" and "heap_grows w (snd (alloc ob w))"
proof -
  let ?w' = "w\<lparr>heap := (heap w)(next_ref w \<mapsto> ob), next_ref := next_ref w + 1\<rparr>"
  have e: "heap_grows w ?w'" by (simp add: heap_grows_def)
  from c have h: "\<forall>a. next_ref w \<le> a \<longrightarrow> heap w a = None"
    and s: "list_all (\<lambda>(k, v). allocated w v) (state w)"
    by (simp_all add: consistent_def)
  from h have h': "\<forall>a. next_ref ?w' \<le> a \<longrightarrow> heap ?w' a = None" by simp
  from s have s': "list_all (\<lambda>(k, v). allocated ?w' v) (state ?w')"
    using allocated_mono [OF e] by (auto simp add: list_all_iff)
  have "consistent cfg ?w'"
    using c e h' s' by (rule consistent_frame) simp_all
  then show "consistent cfg (snd (alloc ob w))" by (simp add: alloc_def)
  from e show "heap_grows w (snd (alloc ob w))" by (simp add: alloc_def)
qed

lemma consistent_updateStreamSettings:
  assumes c: "consistent cfg w"
  shows "consistent cfg (updateStreamSettings settings w)"
proof -
  let ?ob = "Plain (spread (spread [] (own_props w (get ''streamSettings'' w))) settings)"
  let ?w1 = "snd (alloc ?ob w)"
  have c1: "consistent cfg ?w1" using c by (rule consistent_alloc(1))
  have "allocated ?w1 (Ref (next_ref w))" by (simp add: allocated_def alloc_def)
  with c1 have "consistent cfg (set_attr ''streamSettings'' (Ref (next_ref w)) ?w1)"
    by (rule consistent_set_attr)
  then show ?thesis by (simp add: updateStreamSettings_def alloc_def Let_def)
qed

lemma consistent_streams_cache:
  assumes c: "consistent cfg w" and ss: "allocated w ss" and st: "allocated w st"
    and out: "allocated w out"
    and ok: "if \<not> truthy ss \<or> \<not> truthy st then out = st
             else (case out of
                     Ref r \<Rightarrow> heap w r = Some (Plain (streams_loop w ss st (js_keys w st) []))
                   | _ \<Rightarrow> False)"
  shows "consistent cfg (w\<lparr>sel_streams := Some ([ss, st], out)\<rparr>)"
proof -
  let ?w' = "w\<lparr>sel_streams := Some ([ss, st], out)\<rparr>"
  have e: "heap_grows w ?w'" by (rule heap_grows_same_heap) simp_all
  have al: "allocated ?w' x = allocated w x" for x by (rule allocated_next) simp
  have ca: "cache_allocated ?w' x = cache_allocated w x" for x by (rule cache_allocated_next) simp
  from c have a2: "cache_allocated w (sel_start w)" and a3: "cache_allocated w (sel_end w)"
    and v2: "start_cache_valid cfg w" and v3: "end_cache_valid w"
    and h: "\<forall>a. next_ref w \<le> a \<longrightarrow> heap w a = None"
    and s: "list_all (\<lambda>(k, v). allocated w v) (state w)"
    by (simp_all add: consistent_def)
  have lp: "streams_loop ?w' ss st (js_keys ?w' st) [] = streams_loop w ss st (js_keys w st) []"
    using e ss st by (rule heap_grows_streams_loop)
  have "start_cache_valid cfg ?w'" using e _ a2 v2 by (rule start_valid_transfer) simp
  moreover have "end_cache_valid ?w'" using e _ a3 v3 by (rule end_valid_transfer) simp
  moreover have "streams_cache_valid ?w'"
  proof (cases "\<not> truthy ss \<or> \<not> truthy st")
    case True
    with ok show ?thesis by (simp add: streams_cache_valid_def)
  next
    case False
    with ok obtain r where r: "out = Ref r"
      and hr: "heap w r = Some (Plain (streams_loop w ss st (js_keys w st) []))"
      by (auto split: jsval.splits)
    show ?thesis
      using False r hr lp by (simp add: streams_cache_valid_def)
  qed
  moreover have "cache_allocated ?w' (sel_streams ?w')"
    using ss st out by (simp add: ca) (simp add: cache_allocated_def)
  ultimately show ?thesis
    using h s a2 a3 by (simp add: consistent_def al ca)
qed

lemma consistent_getStreams:
  assumes c: "consistent cfg w"
  shows "consistent cfg (snd (getStreams w))"
proof (cases "cached (sel_streams w) [getStreamSettings w, getStreams_input w]")
  case (Some out)
  with c show ?thesis by (simp add: getStreams_unfold)
next
  case None
  let ?ss = "getStreamSettings w"
  let ?st = "getStreams_input w"
  have ss: "allocated w ?ss" and st: "allocated w ?st"
    using c by (simp_all add: getStreamSettings_def getStreams_input_def consistent_get)
  show ?thesis
  proof (cases "\<not> truthy ?ss \<or> \<not> truthy ?st")
    case True
    with c ss st have "consistent cfg (w\<lparr>sel_streams := Some ([?ss, ?st], ?st)\<rparr>)"
      by (intro consistent_streams_cache) simp_all
    with None True show ?thesis by (auto simp add: getStreams_unfold getStreams_fn_def)
  next
    case False
    let ?res = "streams_loop w ?ss ?st (js_keys w ?st) []"
    let ?w1 = "snd (alloc (Plain ?res) w)"
    have c1: "consistent cfg ?w1" and e: "heap_grows w ?w1"
      using c by (rule consistent_alloc)+
    have lp: "streams_loop ?w1 ?ss ?st (js_keys ?w1 ?st) [] = ?res"
      using e ss st by (rule heap_grows_streams_loop)
    have h1: "heap ?w1 (next_ref w) = Some (Plain ?res)" by (simp add: alloc_def)
    have "consistent cfg (?w1\<lparr>sel_streams := Some ([?ss, ?st], Ref (next_ref w))\<rparr>)"
      using c1
    proof (rule consistent_streams_cache)
      show "allocated ?w1 ?ss" using e ss by (rule allocated_mono)
      show "allocated ?w1 ?st" using e st by (rule allocated_mono)
      show "allocated ?w1 (Ref (next_ref w))" by (simp add: allocated_def alloc_def)
      show "if \<not> truthy ?ss \<or> \<not> truthy ?st then Ref (next_ref w) = ?st
             else (case Ref (next_ref w) of
                     Ref r \<Rightarrow> heap ?w1 r = Some (Plain (streams_loop ?w1 ?ss ?st (js_keys ?w1 ?st) []))
                   | _ \<Rightarrow> False)"
        using False h1 lp by simp
    qed
    with None False show ?thesis
      by (simp add: getStreams_unfold getStreams_fn_def alloc_def Let_def)
  qed
qed

lemma consistent_fields:
  assumes c: "consistent cfg w" and "heap w' = heap w" and "next_ref w' = next_ref w"
    and "state w' = state w" and "sel_streams w' = sel_streams w" and "sel_start w' = sel_start w"
    and "sel_end w' = sel_end w"
  shows "consistent cfg w'"
proof (rule consistent_frame [OF c])
  show "heap_grows w w'" using assms(2,3) by (rule heap_grows_same_heap)
  show "\<forall>a. next_ref w' \<le> a \<longrightarrow> heap w' a = None"
    using c assms(2,3) by (simp add: consistent_def)
  have "allocated w' x = allocated w x" for x using assms(3) by (rule allocated_next)
  then show "list_all (\<lambda>(k, v). allocated w' v) (state w')"
    using c assms(4) by (simp add: consistent_def)
qed (fact assms)+

lemma consistent_subscribe: "consistent cfg w \<Longrightarrow> consistent cfg (subscribe inst w)"
  by (erule consistent_fields) (simp_all add: subscribe_def)

lemma consistent_unsubscribe: "consistent cfg w \<Longrightarrow> consistent cfg (unsubscribe inst w)"
  by (erule consistent_fields) (simp_all add: unsubscribe_def)

lemma consistent_on: "consistent cfg w \<Longrightarrow> consistent cfg (snd (on eventType cb w))"
  by (erule consistent_fields) (simp_all add: on_def split: option.splits)

lemma consistent_off: "consistent cfg w \<Longrightarrow> consistent cfg (snd (off eventType cb w))"
  by (erule consistent_fields) (simp_all add: off_def split: option.splits)

lemma consistent_stats_bump: "consistent cfg w \<Longrightarrow> consistent cfg (stats_bump name w)"
  by (erule consistent_fields) (simp_all add: stats_bump_def)

lemma consistent_trace: "consistent cfg w \<Longrightarrow> consistent cfg (w\<lparr>trace := t\<rparr>)"
  by (erule consistent_fields) simp_all

lemma consistent_timer: "consistent cfg w \<Longrightarrow> consistent cfg (w\<lparr>updateTimer := t\<rparr>)"
  by (erule consistent_fields) simp_all

lemma consistent_queue: "consistent cfg w \<Longrightarrow> consistent cfg (w\<lparr>raf_queue := q\<rparr>)"
  by (erule consistent_fields) simp_all

lemma consistent_setLookAhead:
  "consistent cfg w \<Longrightarrow> allocated w lookAhead \<Longrightarrow> consistent cfg (setLookAhead lookAhead w)"
  by (simp add: setLookAhead_def consistent_set_attr)

lemma next_ref_perform: "next_ref (snd (perform a w)) = next_ref w"
  by (cases a)
    (simp_all add: next_ref_set_attr subscribe_def unsubscribe_def on_def off_def
      split: option.splits)

lemma action_allocated_next:
  assumes "next_ref w' = next_ref w"
  shows "action_allocated w' a = action_allocated w a"
  by (cases a) (simp_all add: action_allocated_def allocated_next [OF assms])

lemma consistent_perform:
  "consistent cfg w \<Longrightarrow> action_allocated w a \<Longrightarrow> consistent cfg (snd (perform a w))"
  by (cases a)
    (simp_all add: action_allocated_def consistent_set_attr consistent_subscribe
      consistent_unsubscribe consistent_on consistent_off)

lemma consistent_perform_all:
  "consistent cfg w \<Longrightarrow> list_all (action_allocated w) as \<Longrightarrow>
   consistent cfg (snd (perform_all as w)) \<and> next_ref (snd (perform_all as w)) = next_ref w"
proof (induction as arbitrary: w)
  case Nil
  then show ?case by simp
next
  case (Cons a as)
  obtain r w1 where p: "perform a w = (r, w1)" by (cases "perform a w")
  from Cons.prems consistent_perform [of cfg w a] p have c: "consistent cfg w1" by simp
  from next_ref_perform [of a w] p have n: "next_ref w1 = next_ref w" by simp
  have "action_allocated w1 x = action_allocated w x" for x
    using n by (rule action_allocated_next)
  with Cons.prems have "list_all (action_allocated w1) as"
    by (simp add: list_all_iff)
  with c have ih: "consistent cfg (snd (perform_all as w1))
      \<and> next_ref (snd (perform_all as w1)) = next_ref w1"
    by (rule Cons.IH)
  show ?case
  proof (cases r)
    case None
    with p ih n show ?thesis by simp
  next
    case (Some e)
    with p c n show ?thesis by simp
  qed
qed

lemma consistent_react:
  assumes "consistent cfg w" and "list_all (action_allocated w) (acts r)"
  shows "consistent cfg (snd (react f r w))" and "next_ref (snd (react f r w)) = next_ref w"
proof -
  obtain r1 w1 where p: "perform_all (acts r) w = (r1, w1)" by (cases "perform_all (acts r) w")
  from consistent_perform_all [OF assms] p
  have "consistent cfg w1" and "next_ref w1 = next_ref w" by simp_all
  then show "consistent cfg (snd (react f r w))" and "next_ref (snd (react f r w)) = next_ref w"
    using p by (cases r1; simp add: react_def)+
qed

lemma consistent_call_listener:
  assumes c: "consistent cfg w" and env: "\<forall>f g. list_all (action_allocated w) (acts (lenv f g))"
  shows "consistent cfg (snd (call_listener lenv f w))"
    and "next_ref (snd (call_listener lenv f w)) = next_ref w"
proof -
  let ?w0 = "w\<lparr>trace := trace w @ [CallListener f (version w)]\<rparr>"
  have c0: "consistent cfg ?w0" using c by (rule consistent_trace)
  have "action_allocated ?w0 x = action_allocated w x" for x
    by (rule action_allocated_next) simp
  with env have a0: "list_all (action_allocated ?w0) (acts (lenv f (version w)))"
    by (simp add: list_all_iff)
  show "consistent cfg (snd (call_listener lenv f w))"
    unfolding call_listener_def using c0 a0 by (rule consistent_react(1))
  show "next_ref (snd (call_listener lenv f w)) = next_ref w"
    unfolding call_listener_def using consistent_react(2) [OF c0 a0] by simp
qed

lemma consistent_forEach:
  "consistent cfg w \<Longrightarrow> \<forall>f g. list_all (action_allocated w) (acts (lenv f g)) \<Longrightarrow>
   consistent cfg (snd (forEach_listeners lenv k len w))
   \<and> next_ref (snd (forEach_listeners lenv k len w)) = next_ref w"
proof (induction lenv k len w rule: forEach_listeners.induct)
  case (1 lenv k len w)
  show ?case
  proof (cases "k < len")
    case False
    with "1.prems" show ?thesis by (subst (1 2) forEach_listeners.simps) simp
  next
    case True
    note lt = this
    show ?thesis
    proof (cases "k < length (listeners w)")
      case False
      with lt "1.IH"(2) "1.prems" show ?thesis
        by (subst (1 2) forEach_listeners.simps) simp
    next
      case True
      let ?f = "listeners w ! k"
      obtain r w' where call: "call_listener lenv ?f w = (r, w')"
        by (cases "call_listener lenv ?f w")
      from consistent_call_listener [OF "1.prems", of ?f] call
      have c': "consistent cfg w'" and n': "next_ref w' = next_ref w" by simp_all
      show ?thesis
      proof (cases r)
        case (Some e)
        with lt True call c' n' show ?thesis
          by (subst (1 2) forEach_listeners.simps) simp
      next
        case None
        have "action_allocated w' x = action_allocated w x" for x
          using n' by (rule action_allocated_next)
        with "1.prems"(2) have env': "\<forall>f g. list_all (action_allocated w') (acts (lenv f g))"
          by (simp add: list_all_iff)
        from "1.IH"(1) [OF lt True call [symmetric] _ c' env'] None
        have "consistent cfg (snd (forEach_listeners lenv (k + 1) len w'))
            \<and> next_ref (snd (forEach_listeners lenv (k + 1) len w')) = next_ref w'"
          by simp
        with lt True call None n' show ?thesis
          by (subst (1 2) forEach_listeners.simps) simp
      qed
    qed
  qed
qed

lemma env_allocated_next:
  assumes "next_ref w' = next_ref w" and "\<forall>f g. list_all (action_allocated w) (acts (lenv f g))"
  shows "\<forall>f g. list_all (action_allocated w') (acts (lenv f g))"
proof -
  have "action_allocated w' x = action_allocated w x" for x
    using assms(1) by (rule action_allocated_next)
  with assms(2) show ?thesis by (simp add: list_all_iff)
qed

lemma consistent_loader_update:
  assumes c: "consistent cfg w" and env: "\<forall>f g. list_all (action_allocated w) (acts (lenv f g))"
  shows "consistent cfg (snd (loader_update lenv w))"
    and "next_ref (snd (loader_update lenv w)) = next_ref w"
proof -
  let ?w1 = "w\<lparr>updateTimer := None\<rparr>"
  have c1: "consistent cfg ?w1" using c by (rule consistent_timer)
  have env1: "\<forall>f g. list_all (action_allocated ?w1) (acts (lenv f g))"
    using _ env by (rule env_allocated_next) simp
  from consistent_forEach [OF c1 env1, of 0 "length (listeners ?w1)"]
  show "consistent cfg (snd (loader_update lenv w))"
    and "next_ref (snd (loader_update lenv w)) = next_ref w"
    by (simp_all add: loader_update_def Let_def)
qed

lemma consistent_run_callbacks:
  "consistent cfg w \<Longrightarrow> \<forall>f g. list_all (action_allocated w) (acts (lenv f g)) \<Longrightarrow>
   consistent cfg (run_callbacks lenv hs w)"
proof (induction hs arbitrary: w)
  case Nil
  then show ?case by simp
next
  case (Cons h hs)
  let ?w0 = "w\<lparr>trace := trace w @ [Fire h]\<rparr>"
  let ?w1 = "snd (loader_update lenv ?w0)"
  have c0: "consistent cfg ?w0" using Cons.prems(1) by (rule consistent_trace)
  have env0: "\<forall>f g. list_all (action_allocated ?w0) (acts (lenv f g))"
    using _ Cons.prems(2) by (rule env_allocated_next) simp
  have c1: "consistent cfg ?w1" using c0 env0 by (rule consistent_loader_update(1))
  have n1: "next_ref ?w1 = next_ref ?w0" using c0 env0 by (rule consistent_loader_update(2))
  have env1: "\<forall>f g. list_all (action_allocated ?w1) (acts (lenv f g))"
    using n1 env0 by (rule env_allocated_next)
  from c1 env1 have "consistent cfg (run_callbacks lenv hs ?w1)" by (rule Cons.IH)
  then show ?case by simp
qed

lemma consistent_animation_frame:
  assumes c: "consistent cfg w" and env: "\<forall>f g. list_all (action_allocated w) (acts (lenv f g))"
  shows "consistent cfg (animation_frame lenv w)"
proof -
  let ?w0 = "w\<lparr>raf_queue := []\<rparr>"
  have c0: "consistent cfg ?w0" using c by (rule consistent_queue)
  have env0: "\<forall>f g. list_all (action_allocated ?w0) (acts (lenv f g))"
    using _ env by (rule env_allocated_next) simp
  from c0 env0 show ?thesis
    unfolding animation_frame_def by (rule consistent_run_callbacks)
qed

lemma consistent_call_callback:
  assumes c: "consistent cfg w"
    and env: "\<forall>cb. list_all (action_allocated w) (acts (cenv cb eventType eventArgs))"
  shows "consistent cfg (snd (call_callback cenv eventType eventArgs cb w))"
    and "next_ref (snd (call_callback cenv eventType eventArgs cb w)) = next_ref w"
proof -
  let ?w0 = "w\<lparr>trace := trace w @ [CallCallback cb eventType eventArgs]\<rparr>"
  have c0: "consistent cfg ?w0" using c by (rule consistent_trace)
  have "action_allocated ?w0 x = action_allocated w x" for x
    by (rule action_allocated_next) simp
  with env have a0: "list_all (action_allocated ?w0) (acts (cenv cb eventType eventArgs))"
    by (simp add: list_all_iff)
  show "consistent cfg (snd (call_callback cenv eventType eventArgs cb w))"
    unfolding call_callback_def using c0 a0 by (rule consistent_react(1))
  show "next_ref (snd (call_callback cenv eventType eventArgs cb w)) = next_ref w"
    unfolding call_callback_def using consistent_react(2) [OF c0 a0] by simp
qed

lemma consistent_emit_loop:
  assumes run: "emit_loop cenv eventType eventArgs i w = Some y"
  shows "consistent cfg w
      \<and> (\<forall>cb. list_all (action_allocated w) (acts (cenv cb eventType eventArgs)))
    \<longrightarrow> consistent cfg (snd y)"
proof (rule emit_loop.raw_induct [where P = "\<lambda>cenv eventType eventArgs i w y.
    consistent cfg w
      \<and> (\<forall>cb. list_all (action_allocated w) (acts (cenv cb eventType eventArgs)))
    \<longrightarrow> consistent cfg (snd y)", OF _ run], goal_cases)
  case (1 loop cenv eventType eventArgs i w y)
  show ?case
  proof
    assume a: "consistent cfg w
      \<and> (\<forall>cb. list_all (action_allocated w) (acts (cenv cb eventType eventArgs)))"
    show "consistent cfg (snd y)"
    proof (cases "map_of (callbacks w) eventType")
      case None
      with 1(2) a show ?thesis by auto
    next
      case (Some cbs)
      show ?thesis
      proof (cases "i < length cbs")
        case False
        with Some 1(2) a show ?thesis by auto
      next
        case True
        obtain r w1 where cc: "call_callback cenv eventType eventArgs (cbs ! i) w = (r, w1)"
          by (cases "call_callback cenv eventType eventArgs (cbs ! i) w")
        from a consistent_call_callback [of cfg w cenv eventType eventArgs "cbs ! i"] cc
        have c1: "consistent cfg w1" and n1: "next_ref w1 = next_ref w" by simp_all
        show ?thesis
        proof (cases r)
          case (Some e)
          with \<open>map_of (callbacks w) eventType = Some cbs\<close> True cc 1(2)
          have "y = (Some e, w1)" by simp
          with c1 show ?thesis by simp
        next
          case None
          with \<open>map_of (callbacks w) eventType = Some cbs\<close> True cc 1(2)
          have "loop cenv eventType eventArgs (i + 1) w1 = Some y" by simp
          moreover have "action_allocated w1 x = action_allocated w x" for x
            using n1 by (rule action_allocated_next)
          with a have "\<forall>cb. list_all (action_allocated w1) (acts (cenv cb eventType eventArgs))"
            by (simp add: list_all_iff)
          ultimately show ?thesis using 1(1) c1 by blast
        qed
      qed
    qed
  qed
qed

lemma consistent_emit:
  assumes c: "consistent cfg w"
    and env: "\<forall>cb. list_all (action_allocated w) (acts (cenv cb eventType eventArgs))"
    and run: "emit cenv eventType eventArgs w = Some (r, w')"
  shows "consistent cfg w'"
proof (cases "map_of (callbacks w) eventType")
  case None
  with c run show ?thesis
    by (auto simp add: emit_def consistent_stats_bump split: if_splits)
next
  case (Some cbs)
  with run obtain r1 w1 where loop: "emit_loop cenv eventType eventArgs 0 w = Some (r1, w1)"
    and res: "w' = (case r1 of None \<Rightarrow> stats_bump (''loader-'' @ eventType) w1 | Some e \<Rightarrow> w1)"
    by (auto simp add: emit_def split: option.splits prod.splits)
  from consistent_emit_loop [OF loop, of cfg] c env have "consistent cfg w1" by simp
  with res show ?thesis by (cases r1) (simp_all add: consistent_stats_bump)
qed

lemma consistent_sync_update:
  assumes c: "consistent cfg w" and h: "heap w a = Some (Sync s)"
  shows "consistent cfg (w\<lparr>heap := (heap w)(a \<mapsto> Sync s'), trace := t\<rparr>)"
proof (rule consistent_frame [OF c])
  let ?w' = "w\<lparr>heap := (heap w)(a \<mapsto> Sync s'), trace := t\<rparr>"
  from c have closed: "\<forall>a. next_ref w \<le> a \<longrightarrow> heap w a = None"
    and s: "list_all (\<lambda>(k, v). allocated w v) (state w)"
    by (simp_all add: consistent_def)
  show "heap_grows w ?w'" using h by (simp add: heap_grows_def is_sync_def)
  from closed h have "a < next_ref w" by (cases "a < next_ref w") auto
  with closed show "\<forall>a'. next_ref ?w' \<le> a' \<longrightarrow> heap ?w' a' = None" by simp
  have "allocated ?w' x = allocated w x" for x by (rule allocated_next) simp
  with s show "list_all (\<lambda>(k, v). allocated ?w' v) (state ?w')" by simp
qed simp_all

lemma consistent_sync_setTime: "consistent cfg w \<Longrightarrow> consistent cfg (sync_setTime a t w)"
  by (simp add: sync_setTime_def consistent_sync_update split: option.splits obj.splits)

lemma consistent_sync_setLookAheadTimeOffset:
  "consistent cfg w \<Longrightarrow> consistent cfg (sync_setLookAheadTimeOffset a t w)"
  by (simp add: sync_setLookAheadTimeOffset_def consistent_sync_update
      split: option.splits obj.splits)

lemma consistent_sync_getCurrentFrame:
  "consistent cfg w \<Longrightarrow> consistent cfg (snd (sync_getCurrentFrame frame_of a streamSettings w))"
  by (simp add: sync_getCurrentFrame_def consistent_trace split: option.splits obj.splits)

lemma consistent_getCurrentFrame_fn:
  assumes c: "consistent cfg w"
  shows "consistent cfg (snd (getCurrentFrame_fn frame_of ls ss t la w))"
proof (cases "truthy ls \<and> isFinite t")
  case False
  with c show ?thesis by (auto simp add: getCurrentFrame_fn_def)
next
  case True
  show ?thesis
  proof (cases "sync_of w ls")
    case None
    with True c show ?thesis by (simp add: getCurrentFrame_fn_def)
  next
    case (Some a)
    let ?w2 = "sync_setLookAheadTimeOffset a la (sync_setTime a t w)"
    have "consistent cfg ?w2"
      using c by (intro consistent_sync_setLookAheadTimeOffset consistent_sync_setTime)
    then have "consistent cfg (snd (sync_getCurrentFrame frame_of a ss ?w2))"
      by (rule consistent_sync_getCurrentFrame)
    with True Some show ?thesis
      by (auto simp add: getCurrentFrame_fn_def Let_def split: prod.splits)
  qed
qed

lemma consistent_frame_cache: "consistent cfg w \<Longrightarrow> consistent cfg (w\<lparr>sel_frame := c\<rparr>)"
  by (erule consistent_fields) simp_all

lemma consistent_getCurrentFrame:
  assumes c: "consistent cfg w"
  shows "consistent cfg (snd (getCurrentFrame frame_of w))"
proof -
  obtain v where v: "fst (getStreams w) = Inr v" using getStreams_returns [of w] by blast
  let ?w1 = "snd (getStreams w)"
  let ?ins = "[getLogSynchronizer w, getStreamSettings w, getCurrentTime w, getLookAhead w, v]"
  have c1: "consistent cfg ?w1" using c by (rule consistent_getStreams)
  have ins: "getCurrentFrame_inputs w = (Inr ?ins, ?w1)"
    using v by (cases "getStreams w") (simp add: getCurrentFrame_inputs_def)
  show ?thesis
  proof (cases "cached (sel_frame ?w1) ?ins")
    case (Some out)
    with ins c1 show ?thesis by (simp add: getCurrentFrame_def createSelector_def)
  next
    case None
    obtain r w2 where fn: "getCurrentFrame_fn frame_of (getLogSynchronizer w) (getStreamSettings w)
        (getCurrentTime w) (getLookAhead w) ?w1 = (r, w2)"
      by (cases "getCurrentFrame_fn frame_of (getLogSynchronizer w) (getStreamSettings w)
        (getCurrentTime w) (getLookAhead w) ?w1")
    have "consistent cfg (snd (getCurrentFrame_fn frame_of (getLogSynchronizer w)
        (getStreamSettings w) (getCurrentTime w) (getLookAhead w) ?w1))"
      using c1 by (rule consistent_getCurrentFrame_fn)
    with fn have c2: "consistent cfg w2" by simp
    show ?thesis
    proof (cases r)
      case (Inl e)
      with ins None fn c2 show ?thesis by (simp add: getCurrentFrame_def createSelector_def)
    next
      case (Inr out)
      with ins None fn c2 show ?thesis
        by (simp add: getCurrentFrame_def createSelector_def consistent_frame_cache)
    qed
  qed
qed

lemma consistent_setMetadata:
  assumes c: "consistent cfg w" and a: "a < next_ref w"
    and m: "\<forall>m. heap w a = Some (Meta m) \<longrightarrow> allocated w (meta_streams m)"
  shows "consistent cfg (snd (setMetadata cfg a w))"
proof -
  define w1 where "w1 = set_attr ''metadata'' (Ref a) w"
  define strms where "strms = (case meta_of w1 (Ref a) of None \<Rightarrow> Undefined | Some x \<Rightarrow> meta_streams x)"
  define w2 where "w2 = (if truthy strms \<and> length (js_keys w1 strms) > 0
             then set_attr ''streamSettings'' strms w1 else w1)"
  define new where "new = (if isFinite (get ''timestamp'' w2) then get ''timestamp'' w2
             else (case meta_of w1 (Ref a) of None \<Rightarrow> Undefined | Some x \<Rightarrow> num_field (start_time x)))"
  have unf: "setMetadata cfg a w
      = (case new of Num (Fin t) \<Rightarrow> seek cfg (Fin t) w2 | _ \<Rightarrow> (None, w2))"
    by (simp only: setMetadata_def Let_def new_def w2_def strms_def w1_def)
  from a have "allocated w (Ref a)" by (simp add: allocated_def)
  with c have c1: "consistent cfg w1" unfolding w1_def by (rule consistent_set_attr)
  have "allocated w strms"
    using m by (auto simp add: strms_def w1_def meta_of_def heap_set_attr allocated_def
        split: option.splits obj.splits)
  then have "allocated w1 strms"
    unfolding w1_def by (simp add: allocated_next [OF next_ref_set_attr])
  with c1 have c2: "consistent cfg w2" by (simp add: w2_def consistent_set_attr)
  then have c3: "consistent cfg (snd (seek cfg t w2))" for t by (rule consistent_seek)
  show ?thesis
  proof (cases new)
    case (Num n)
    then show ?thesis using c2 c3 by (cases n) (simp_all add: unf)
  qed (simp_all add: unf c2)
qed

lemma reachable_consistent:
  "reachable cfg lenv cenv frame_of w \<Longrightarrow> consistent cfg w"
proof (induction rule: reachable.induct)
  case r_new
  show ?case by (rule consistent_constructor)
next
  case (r_object w ob)
  then show ?case by (simp add: consistent_alloc(1))
next
  case (r_set w val key)
  then show ?case by (simp add: consistent_set_attr)
next
  case (r_seek w t)
  then show ?case by (simp add: consistent_seek)
next
  case (r_setLookAhead w lookAhead)
  then show ?case by (simp add: consistent_setLookAhead)
next
  case (r_updateStreamSettings w settings)
  then show ?case by (simp add: consistent_updateStreamSettings)
next
  case (r_setMetadata w a)
  then show ?case by (intro consistent_setMetadata)
next
  case (r_subscribe w inst)
  then show ?case by (simp add: consistent_subscribe)
next
  case (r_unsubscribe w inst)
  then show ?case by (simp add: consistent_unsubscribe)
next
  case (r_on w eventType cb)
  then show ?case by (simp add: consistent_on)
next
  case (r_off w eventType cb)
  then show ?case by (simp add: consistent_off)
next
  case (r_emit w eventType eventArgs r w')
  from r_emit.IH r_emit.hyps(2,3) show ?case by (rule consistent_emit)
next
  case (r_frame w)
  then show ?case by (intro consistent_animation_frame)
next
  case (r_getStreams w)
  then show ?case by (simp add: consistent_getStreams)
next
  case (r_getLogStartTime w)
  then show ?case by (simp add: consistent_getLogStartTime)
next
  case (r_getLogEndTime w)
  then show ?case by (simp add: consistent_getLogEndTime)
next
  case (r_getCurrentFrame w)
  then show ?case by (simp add: consistent_getCurrentFrame)
qed

lemma reachable_hypotheses:
  assumes "reachable cfg lenv cenv frame_of w"
  shows "unused w (next_ref w)" and "streams_cache_valid w"
    and "start_cache_valid cfg w" and "end_cache_valid w"
proof -
  from assms have c: "consistent cfg w" by (rule reachable_consistent)
  then show "unused w (next_ref w)" by (rule consistent_unused)
  from c show "streams_cache_valid w" "start_cache_valid cfg w" "end_cache_valid w"
    by (simp_all add: consistent_def)
qed

lemma tick_ok_fields:
  "updateTimer w' = updateTimer w \<Longrightarrow> raf_queue w' = raf_queue w \<Longrightarrow> tick_ok w' = tick_ok w"
  by (simp add: tick_ok_def)

lemma tick_ok_set_attr: "tick_ok w \<Longrightarrow> tick_ok (set_attr key val w)"
  by (auto simp add: tick_ok_def set_attr_def Let_def requestAnimationFrame_def handle_truthy_def
      split: option.splits)

lemma tick_ok_perform: "tick_ok w \<Longrightarrow> tick_ok (snd (perform a w))"
proof (cases a)
  case (ASet key val)
  assume "tick_ok w"
  with ASet show ?thesis by (simp add: tick_ok_set_attr)
next
  case (ASubscribe inst)
  assume "tick_ok w"
  with ASubscribe show ?thesis by (simp add: subscribe_def tick_ok_def)
next
  case (AUnsubscribe inst)
  assume "tick_ok w"
  with AUnsubscribe show ?thesis by (simp add: unsubscribe_def tick_ok_def)
next
  case (AOn eventType cb)
  assume "tick_ok w"
  with AOn show ?thesis by (simp add: on_def tick_ok_def split: option.splits)
next
  case (AOff eventType cb)
  assume "tick_ok w"
  with AOff show ?thesis by (simp add: off_def tick_ok_def split: option.splits)
qed

lemma tick_ok_perform_all: "tick_ok w \<Longrightarrow> tick_ok (snd (perform_all as w))"
proof (induction as arbitrary: w)
  case Nil
  then show ?case by simp
next
  case (Cons a as)
  obtain r w1 where p: "perform a w = (r, w1)" by (cases "perform a w")
  from Cons.prems tick_ok_perform [of w a] p have t: "tick_ok w1" by simp
  show ?case
  proof (cases r)
    case None
    with p Cons.IH [OF t] show ?thesis by simp
  next
    case (Some e)
    with p t show ?thesis by simp
  qed
qed

lemma tick_ok_react:
  assumes "tick_ok w"
  shows "tick_ok (snd (react f r w))"
proof -
  obtain r1 w1 where p: "perform_all (acts r) w = (r1, w1)" by (cases "perform_all (acts r) w")
  from tick_ok_perform_all [OF assms, of "acts r"] p have "tick_ok w1" by simp
  then show ?thesis using p by (cases r1) (simp_all add: react_def)
qed

lemma tick_ok_call_listener: "tick_ok w \<Longrightarrow> tick_ok (snd (call_listener lenv f w))"
proof -
  assume "tick_ok w"
  then have "tick_ok (w\<lparr>trace := trace w @ [CallListener f (version w)]\<rparr>)"
    by (simp add: tick_ok_def)
  then show ?thesis unfolding call_listener_def by (rule tick_ok_react)
qed

lemma tick_ok_forEach: "tick_ok w \<Longrightarrow> tick_ok (snd (forEach_listeners lenv k len w))"
proof (induction lenv k len w rule: forEach_listeners.induct)
  case (1 lenv k len w)
  show ?case
  proof (cases "k < len")
    case False
    with "1.prems" show ?thesis by (subst forEach_listeners.simps) simp
  next
    case True
    note lt = this
    show ?thesis
    proof (cases "k < length (listeners w)")
      case False
      with lt "1.IH"(2) "1.prems" show ?thesis by (subst forEach_listeners.simps) simp
    next
      case True
      let ?f = "listeners w ! k"
      obtain r w' where call: "call_listener lenv ?f w = (r, w')"
        by (cases "call_listener lenv ?f w")
      from tick_ok_call_listener [OF "1.prems", of lenv ?f] call have t': "tick_ok w'" by simp
      show ?thesis
      proof (cases r)
        case (Some e)
        with lt True call t' show ?thesis by (subst forEach_listeners.simps) simp
      next
        case None
        from "1.IH"(1) [OF lt True call [symmetric] _ t'] None
        have "tick_ok (snd (forEach_listeners lenv (k + 1) len w'))" by simp
        with lt True call None show ?thesis by (subst forEach_listeners.simps) simp
      qed
    qed
  qed
qed

lemma tick_ok_flush:
  assumes "raf_queue w = []"
  shows "tick_ok (snd (loader_update lenv w))"
proof -
  from assms have "tick_ok (w\<lparr>updateTimer := None\<rparr>)" by (simp add: tick_ok_def)
  then show ?thesis unfolding loader_update_def Let_def by (rule tick_ok_forEach)
qed

lemma tick_ok_animation_frame:
  assumes "tick_ok w"
  shows "tick_ok (animation_frame lenv w)"
proof (cases "updateTimer w")
  case None
  with assms have "raf_queue w = []" by (simp add: tick_ok_def)
  with assms None show ?thesis by (simp add: animation_frame_def tick_ok_def)
next
  case (Some h)
  with assms have q: "raf_queue w = [h]" by (simp add: tick_ok_def)
  have "tick_ok (snd (loader_update lenv (w\<lparr>raf_queue := [], trace := trace w @ [Fire h]\<rparr>)))"
    by (rule tick_ok_flush) simp
  with q show ?thesis by (simp add: animation_frame_def)
qed

lemma tick_ok_getLogStartTime: "tick_ok w \<Longrightarrow> tick_ok (snd (getLogStartTime cfg w))"
proof -
  assume t: "tick_ok w"
  obtain v c where "getLogStartTime cfg w = (Inr v, w\<lparr>sel_start := c\<rparr>)"
    by (rule getLogStartTime_total)
  with t show ?thesis by (simp add: tick_ok_def)
qed

lemma tick_ok_getLogEndTime: "tick_ok w \<Longrightarrow> tick_ok (snd (getLogEndTime w))"
proof -
  assume t: "tick_ok w"
  obtain v c where "getLogEndTime w = (Inr v, w\<lparr>sel_end := c\<rparr>)"
    by (rule getLogEndTime_total)
  with t show ?thesis by (simp add: tick_ok_def)
qed

lemma getStreams_tick:
  "updateTimer (snd (getStreams w)) = updateTimer w" "raf_queue (snd (getStreams w)) = raf_queue w"
  by (simp_all add: getStreams_unfold getStreams_fn_def alloc_def Let_def
      split: option.splits)

lemma tick_ok_getStreams: "tick_ok w \<Longrightarrow> tick_ok (snd (getStreams w))"
  using tick_ok_fields [OF getStreams_tick, of w] by simp

lemma tick_ok_seek:
  assumes t: "tick_ok w"
  shows "tick_ok (snd (seek cfg ts w))"
proof (cases "truthy (getMetadata w)")
  case False
  with t show ?thesis by (simp add: seek_def tick_ok_set_attr)
next
  case True
  let ?w1 = "snd (getLogStartTime cfg w)"
  let ?w2 = "snd (getLogEndTime ?w1)"
  obtain v c1 where s1: "getLogStartTime cfg w = (Inr v, w\<lparr>sel_start := c1\<rparr>)"
    by (rule getLogStartTime_total)
  obtain v' c2 where s2: "getLogEndTime ?w1 = (Inr v', ?w1\<lparr>sel_end := c2\<rparr>)"
    by (rule getLogEndTime_total)
  have "tick_ok ?w2" using t by (intro tick_ok_getLogEndTime tick_ok_getLogStartTime)
  then have "tick_ok (set_attr ''timestamp'' (Num (seek_target ts v v')) ?w2)"
    by (rule tick_ok_set_attr)
  moreover have "snd (seek cfg ts w) = set_attr ''timestamp'' (Num (seek_target ts v v')) ?w2"
    using True s1 s2 by (simp add: seek_def)
  ultimately show ?thesis by simp
qed

lemma tick_ok_alloc: "tick_ok w \<Longrightarrow> tick_ok (snd (alloc ob w))"
  by (simp add: alloc_def tick_ok_def)

lemma tick_ok_updateStreamSettings: "tick_ok w \<Longrightarrow> tick_ok (updateStreamSettings settings w)"
proof -
  assume "tick_ok w"
  then have "tick_ok (snd (alloc (Plain (spread (spread [] (own_props w (get ''streamSettings'' w)))
      settings)) w))"
    by (rule tick_ok_alloc)
  then have "tick_ok (set_attr ''streamSettings'' (Ref (next_ref w))
      (snd (alloc (Plain (spread (spread [] (own_props w (get ''streamSettings'' w))) settings)) w)))"
    by (rule tick_ok_set_attr)
  then show ?thesis by (simp add: updateStreamSettings_def alloc_def Let_def)
qed

lemma tick_ok_setMetadata:
  assumes t: "tick_ok w"
  shows "tick_ok (snd (setMetadata cfg a w))"
proof -
  define w1 where "w1 = set_attr ''metadata'' (Ref a) w"
  define strms where "strms = (case meta_of w1 (Ref a) of None \<Rightarrow> Undefined | Some x \<Rightarrow> meta_streams x)"
  define w2 where "w2 = (if truthy strms \<and> length (js_keys w1 strms) > 0
             then set_attr ''streamSettings'' strms w1 else w1)"
  define new where "new = (if isFinite (get ''timestamp'' w2) then get ''timestamp'' w2
             else (case meta_of w1 (Ref a) of None \<Rightarrow> Undefined | Some x \<Rightarrow> num_field (start_time x)))"
  have unf: "setMetadata cfg a w
      = (case new of Num (Fin t) \<Rightarrow> seek cfg (Fin t) w2 | _ \<Rightarrow> (None, w2))"
    by (simp only: setMetadata_def Let_def new_def w2_def strms_def w1_def)
  have t1: "tick_ok w1" unfolding w1_def using t by (rule tick_ok_set_attr)
  then have t2: "tick_ok w2" by (simp add: w2_def tick_ok_set_attr)
  then have t3: "tick_ok (snd (seek cfg x w2))" for x by (rule tick_ok_seek)
  show ?thesis
  proof (cases new)
    case (Num n)
    then show ?thesis using t2 t3 by (cases n) (simp_all add: unf)
  qed (simp_all add: unf t2)
qed

lemma tick_ok_stats_bump: "tick_ok w \<Longrightarrow> tick_ok (stats_bump name w)"
  by (simp add: stats_bump_def tick_ok_def)

lemma tick_ok_call_callback:
  "tick_ok w \<Longrightarrow> tick_ok (snd (call_callback cenv eventType eventArgs cb w))"
proof -
  assume "tick_ok w"
  then have "tick_ok (w\<lparr>trace := trace w @ [CallCallback cb eventType eventArgs]\<rparr>)"
    by (simp add: tick_ok_def)
  then show ?thesis unfolding call_callback_def by (rule tick_ok_react)
qed

lemma tick_ok_emit_loop:
  assumes run: "emit_loop cenv eventType eventArgs i w = Some y"
  shows "tick_ok w \<longrightarrow> tick_ok (snd y)"
proof (rule emit_loop.raw_induct [where P = "\<lambda>cenv eventType eventArgs i w y.
    tick_ok w \<longrightarrow> tick_ok (snd y)", OF _ run], goal_cases)
  case (1 loop cenv eventType eventArgs i w y)
  show ?case
  proof
    assume t: "tick_ok w"
    show "tick_ok (snd y)"
    proof (cases "map_of (callbacks w) eventType")
      case None
      with 1(2) t show ?thesis by auto
    next
      case (Some cbs)
      show ?thesis
      proof (cases "i < length cbs")
        case False
        with Some 1(2) t show ?thesis by auto
      next
        case True
        obtain r w1 where cc: "call_callback cenv eventType eventArgs (cbs ! i) w = (r, w1)"
          by (cases "call_callback cenv eventType eventArgs (cbs ! i) w")
        from t tick_ok_call_callback [of w cenv eventType eventArgs "cbs ! i"] cc
        have t1: "tick_ok w1" by simp
        show ?thesis
        proof (cases r)
          case (Some e)
          with \<open>map_of (callbacks w) eventType = Some cbs\<close> True cc 1(2)
          have "y = (Some e, w1)" by simp
          with t1 show ?thesis by simp
        next
          case None
          with \<open>map_of (callbacks w) eventType = Some cbs\<close> True cc 1(2)
          have "loop cenv eventType eventArgs (i + 1) w1 = Some y" by simp
          with 1(1) t1 show ?thesis by blast
        qed
      qed
    qed
  qed
qed

lemma tick_ok_emit:
  assumes t: "tick_ok w" and run: "emit cenv eventType eventArgs w = Some (r, w')"
  shows "tick_ok w'"
proof (cases "map_of (callbacks w) eventType")
  case None
  with t run show ?thesis
    by (auto simp add: emit_def tick_ok_stats_bump split: if_splits)
next
  case (Some cbs)
  with run obtain r1 w1 where loop: "emit_loop cenv eventType eventArgs 0 w = Some (r1, w1)"
    and res: "w' = (case r1 of None \<Rightarrow> stats_bump (''loader-'' @ eventType) w1 | Some e \<Rightarrow> w1)"
    by (auto simp add: emit_def split: option.splits prod.splits)
  from tick_ok_emit_loop [OF loop] t have "tick_ok w1" by simp
  with res show ?thesis by (cases r1) (simp_all add: tick_ok_stats_bump)
qed

lemma getCurrentFrame_fn_tick:
  "updateTimer (snd (getCurrentFrame_fn frame_of ls ss t la w)) = updateTimer w"
  "raf_queue (snd (getCurrentFrame_fn frame_of ls ss t la w)) = raf_queue w"
  by (auto simp add: getCurrentFrame_fn_def Let_def sync_setTime_def
      sync_setLookAheadTimeOffset_def sync_getCurrentFrame_def
      split: option.splits obj.splits prod.splits)

lemma tick_ok_getCurrentFrame:
  assumes t: "tick_ok w"
  shows "tick_ok (snd (getCurrentFrame frame_of w))"
proof -
  obtain v where v: "fst (getStreams w) = Inr v" using getStreams_returns [of w] by blast
  let ?w1 = "snd (getStreams w)"
  let ?ins = "[getLogSynchronizer w, getStreamSettings w, getCurrentTime w, getLookAhead w, v]"
  have t1: "tick_ok ?w1" using t by (rule tick_ok_getStreams)
  have ins: "getCurrentFrame_inputs w = (Inr ?ins, ?w1)"
    using v by (cases "getStreams w") (simp add: getCurrentFrame_inputs_def)
  show ?thesis
  proof (cases "cached (sel_frame ?w1) ?ins")
    case (Some out)
    with ins t1 show ?thesis by (simp add: getCurrentFrame_def createSelector_def)
  next
    case None
    obtain r w2 where fn: "getCurrentFrame_fn frame_of (getLogSynchronizer w) (getStreamSettings w)
        (getCurrentTime w) (getLookAhead w) ?w1 = (r, w2)"
      by (cases "getCurrentFrame_fn frame_of (getLogSynchronizer w) (getStreamSettings w)
        (getCurrentTime w) (getLookAhead w) ?w1")
    have "tick_ok (snd (getCurrentFrame_fn frame_of (getLogSynchronizer w)
        (getStreamSettings w) (getCurrentTime w) (getLookAhead w) ?w1))"
      using tick_ok_fields [OF getCurrentFrame_fn_tick] t1 by simp
    with fn have t2: "tick_ok w2" by simp
    then have t3: "tick_ok (w2\<lparr>sel_frame := c\<rparr>)" for c by (simp add: tick_ok_def)
    show ?thesis
    proof (cases r)
      case (Inl e)
      with ins None fn t2 show ?thesis by (simp add: getCurrentFrame_def createSelector_def)
    next
      case (Inr out)
      with ins None fn t3 show ?thesis by (simp add: getCurrentFrame_def createSelector_def)
    qed
  qed
qed

lemma reachable_tick_ok:
  "reachable cfg lenv cenv frame_of w \<Longrightarrow> tick_ok w"
proof (induction rule: reachable.induct)
  case r_new
  show ?case by (simp add: tick_ok_def constructor_def)
next
  case (r_object w ob)
  then show ?case by (simp add: tick_ok_alloc)
next
  case (r_set w val key)
  then show ?case by (simp add: tick_ok_set_attr)
next
  case (r_seek w t)
  then show ?case by (simp add: tick_ok_seek)
next
  case (r_setLookAhead w lookAhead)
  then show ?case by (simp add: setLookAhead_def tick_ok_set_attr)
next
  case (r_updateStreamSettings w settings)
  then show ?case by (simp add: tick_ok_updateStreamSettings)
next
  case (r_setMetadata w a)
  then show ?case by (simp add: tick_ok_setMetadata)
next
  case (r_subscribe w inst)
  then show ?case by (simp add: subscribe_def tick_ok_def)
next
  case (r_unsubscribe w inst)
  then show ?case by (simp add: unsubscribe_def tick_ok_def)
next
  case (r_on w eventType cb)
  then show ?case by (simp add: on_def tick_ok_def split: option.splits)
next
  case (r_off w eventType cb)
  then show ?case by (simp add: off_def tick_ok_def split: option.splits)
next
  case (r_emit w eventType eventArgs r w')
  from r_emit.IH r_emit.hyps(3) show ?case by (rule tick_ok_emit)
next
  case (r_frame w)
  then show ?case by (simp add: tick_ok_animation_frame)
next
  case (r_getStreams w)
  then show ?case by (simp add: tick_ok_getStreams)
next
  case (r_getLogStartTime w)
  then show ?case by (simp add: tick_ok_getLogStartTime)
next
  case (r_getLogEndTime w)
  then show ?case by (simp add: tick_ok_getLogEndTime)
next
  case (r_getCurrentFrame w)
  then show ?case by (simp add: tick_ok_getCurrentFrame)
qed

lemma reachable_idle:
  assumes "reachable cfg lenv cenv frame_of w" and "updateTimer w = None"
  shows "raf_queue w = []"
  using reachable_tick_ok [OF assms(1)] assms(2) by (simp add: tick_ok_def)

end
